theory Spec2Isabelle
  imports Complex_Main "HOL-Library.Log_Nat"
begin

section \<open>Floating point error of sin(x)/x against its truncated Taylor series\<close>

text \<open>
  The notebook \<^verbatim>\<open>floating-point-error-for-combined-functions.ipynb\<close> builds the
  truncated Taylor polynomials of sin(x)/x, evaluates them and the direct formula in
  64-bit floats on a logarithmic grid, measures both against a 1000-digit reference and
  reports, per series order, the smallest and largest gap between the two errors.

  Numbers. A finite double and a finite \<^verbatim>\<open>mpf\<close> are both binary rationals; each is
  represented by its exact value, a \<^typ>\<open>rat\<close>. The sign of zero is not represented.
  Infinities and NaN are not represented either: an operation whose IEEE result is not
  finite yields \<open>Inl NonFinite\<close> (or \<open>Inl FloatDivideByZero\<close> for a zero divisor), which
  marks the place where numpy would go on with inf or nan under a RuntimeWarning; the
  development does not follow a run beyond that point.
\<close>

subsection \<open>Outcomes\<close>

datatype error =
    ZeroDivisionError   \<comment> \<open>Python: int / 0, mpmath: mpf / 0\<close>
  | OverflowError       \<comment> \<open>Python: int / int whose quotient exceeds the double range\<close>
  | ValueError          \<comment> \<open>slice assignment of the wrong size, min() or max() of nothing\<close>
  | FloatDivideByZero   \<comment> \<open>numpy: x / 0.0, continues with inf or nan\<close>
  | NonFinite           \<comment> \<open>numpy, mpmath to float: overflow to inf\<close>

fun traverse :: "('a \<Rightarrow> error + 'b) \<Rightarrow> 'a list \<Rightarrow> error + 'b list" where
  "traverse f [] = Inr []"
| "traverse f (x # xs) =
     (case f x of
        Inl e \<Rightarrow> Inl e
      | Inr y \<Rightarrow> (case traverse f xs of Inl e \<Rightarrow> Inl e | Inr ys \<Rightarrow> Inr (y # ys)))"

subsection \<open>Rounding to nearest, ties to even\<close>

definition round_half_even :: "rat \<Rightarrow> int" where
  "round_half_even q =
     (let f = \<lfloor>q\<rfloor>; d = q - of_int f
      in if d < 1 / 2 then f else if 1 / 2 < d then f + 1 else if even f then f else f + 1)"

text \<open>\<open>ilog2 q\<close> is the exponent \<open>e\<close> with \<open>2^e \<le> |q| < 2^(e+1)\<close>, for \<open>q \<noteq> 0\<close>.\<close>

definition ilog2 :: "rat \<Rightarrow> int" where
  "ilog2 q =
     (case quotient_of \<bar>q\<bar> of
        (a, b) \<Rightarrow> let e = bitlen a - bitlen b in if 2 powi e \<le> \<bar>q\<bar> then e else e - 1)"

text \<open>
  \<open>round_at e q\<close> is the multiple of \<open>2^e\<close> nearest to \<open>q\<close>. A double has 53
  significant bits and its last place is never below \<open>2^-1074\<close> (gradual underflow); an
  \<^verbatim>\<open>mpf\<close> has \<open>p\<close> significant bits and an unbounded exponent.
\<close>

definition round_at :: "int \<Rightarrow> rat \<Rightarrow> rat" where
  "round_at e q = of_int (round_half_even (q / 2 powi e)) * 2 powi e"

definition round_f64 :: "rat \<Rightarrow> rat" where
  "round_f64 q = (if q = 0 then 0 else round_at (max (ilog2 q - 52) (- 1074)) q)"

definition round_bits :: "nat \<Rightarrow> rat \<Rightarrow> rat" where
  "round_bits p q = (if q = 0 then 0 else round_at (ilog2 q - int p + 1) q)"

definition f64_overflows :: "rat \<Rightarrow> bool" where
  "f64_overflows r = (2 ^ 1024 \<le> \<bar>r\<bar>)"

subsection \<open>Python and numpy primitives used by the series builder\<close>

text \<open>\<^verbatim>\<open>a / b\<close> on Python ints: the correctly rounded double of the exact quotient.\<close>

definition py_truediv :: "int \<Rightarrow> int \<Rightarrow> error + rat" where
  "py_truediv a b =
     (if b = 0 then Inl ZeroDivisionError
      else let r = round_f64 (of_int a / of_int b)
           in if f64_overflows r then Inl OverflowError else Inr r)"

text \<open>\<^verbatim>\<open>math.factorial\<close> on a non-negative int.\<close>

fun factorial :: "nat \<Rightarrow> int" where
  "factorial 0 = 1"
| "factorial (Suc n) = int (Suc n) * factorial n"

text \<open>
  \<^verbatim>\<open>xs[::2] = vs\<close>: an extended slice takes exactly as many values as it has places.
\<close>

definition setslice_even :: "'a list \<Rightarrow> 'a list \<Rightarrow> error + 'a list" where
  "setslice_even xs vs =
     (if length vs = (length xs + 1) div 2
      then Inr (map (\<lambda>j. if even j then vs ! (j div 2) else xs ! j) [0..<length xs])
      else Inl ValueError)"

text \<open>\<^verbatim>\<open>xs[s::-1]\<close> for \<open>s \<ge> 0\<close>: the places \<open>min s (len - 1)\<close> down to \<open>0\<close>.\<close>

definition getslice_down :: "'a list \<Rightarrow> nat \<Rightarrow> 'a list" where
  "getslice_down xs s = rev (take (s + 1) xs)"

text \<open>
  \<^verbatim>\<open>np.poly1d(c)\<close> keeps the coefficients from the highest power down, after dropping
  leading zeros; a polynomial left with no coefficient is \<open>[0]\<close>.
\<close>

datatype poly1d = Poly1d (coef: "rat list")

definition poly1d :: "rat list \<Rightarrow> poly1d" where
  "poly1d c = (let t = dropWhile (\<lambda>a. a = 0) c in Poly1d (if t = [] then [0] else t))"

text \<open>The degree of a polynomial, numpy's \<^verbatim>\<open>p.order\<close>.\<close>

definition degree :: "poly1d \<Rightarrow> nat" where
  "degree p = length (coef p) - 1"

text \<open>\<^verbatim>\<open>p[k]\<close>: the coefficient of \<open>x^k\<close>, zero above the polynomial's degree.\<close>

definition coef_at :: "poly1d \<Rightarrow> nat \<Rightarrow> rat" where
  "coef_at p k = (if degree p < k then 0 else coef p ! (degree p - k))"

subsection \<open>Series builder\<close>

text \<open>
  \<^verbatim>\<open>
  N = 8
  series_coef = [0.] * (2*N - 1)
  series_coef[::2] = [(-1)**i / factorial(2*i + 1) for i in range(N)]
  series = [np.poly1d(series_coef[2*i::-1]) for i in range(1, N)]
  \<close>
\<close>

definition taylor_terms :: "int \<Rightarrow> error + rat list" where
  "taylor_terms n = traverse (\<lambda>i. py_truediv ((- 1) ^ i) (factorial (2 * i + 1))) [0..<nat n]"

definition series_coef :: "int \<Rightarrow> error + rat list" where
  "series_coef n =
     (case taylor_terms n of
        Inl e \<Rightarrow> Inl e
      | Inr vs \<Rightarrow> setslice_even (replicate (nat (2 * n - 1)) 0) vs)"

definition series :: "int \<Rightarrow> error + poly1d list" where
  "series n =
     (case series_coef n of
        Inl e \<Rightarrow> Inl e
      | Inr sc \<Rightarrow> Inr (map (\<lambda>i. poly1d (getslice_down sc (2 * i))) [1..<nat n]))"

definition N :: int where
  "N = 8"

subsection \<open>The numeric library\<close>

text \<open>
  The elementary functions come from the platform's numpy and from mpmath, not from the
  notebook. They are parameters of the development: \<open>np_power b y\<close> is \<^verbatim>\<open>np.power(b, y)\<close>
  on doubles (it may overflow), \<open>np_sin x\<close> is \<^verbatim>\<open>np.sin(x)\<close>, and \<open>mp_sin p x\<close> is
  \<^verbatim>\<open>mp.sin(x)\<close> at a working precision of \<open>p\<close> bits. Being functions, they return the same
  result whenever they are given the same arguments.
\<close>

record numlib =
  np_power :: "rat \<Rightarrow> rat \<Rightarrow> error + rat"
  np_sin :: "rat \<Rightarrow> rat"
  mp_sin :: "nat \<Rightarrow> rat \<Rightarrow> rat"

subsection \<open>Arithmetic on doubles (numpy)\<close>

definition f64 :: "rat \<Rightarrow> error + rat" where
  "f64 q = (let r = round_f64 q in if f64_overflows r then Inl NonFinite else Inr r)"

definition np_add :: "rat \<Rightarrow> rat \<Rightarrow> error + rat" where
  "np_add a b = f64 (a + b)"

definition np_subtract :: "rat \<Rightarrow> rat \<Rightarrow> error + rat" where
  "np_subtract a b = f64 (a - b)"

definition np_multiply :: "rat \<Rightarrow> rat \<Rightarrow> error + rat" where
  "np_multiply a b = f64 (a * b)"

definition np_divide :: "rat \<Rightarrow> rat \<Rightarrow> error + rat" where
  "np_divide a b = (if b = 0 then Inl FloatDivideByZero else f64 (a / b))"

subsection \<open>Sample set\<close>

text \<open>
  \<^verbatim>\<open>x_range = np.logspace(-10, 0, 50)\<close>

  numpy computes \<^verbatim>\<open>logspace(start, stop, num)\<close> as \<^verbatim>\<open>power(10.0, linspace(start, stop, num))\<close>,
  and \<^verbatim>\<open>linspace\<close> (endpoint included) as
  \<^verbatim>\<open>
  delta = stop - start;  y = arange(0, num)
  if num > 1:
      step = delta / (num - 1)
      if step == 0:  y = y / (num - 1);  y = y * delta
      else:          y = y * step
  else:              y = y * delta
  y = y + start
  if num > 1:  y[-1] = stop
  \<close>
\<close>

definition linspace :: "rat \<Rightarrow> rat \<Rightarrow> nat \<Rightarrow> error + rat list" where
  "linspace start stop num =
     (case np_subtract stop start of
        Inl e \<Rightarrow> Inl e
      | Inr delta \<Rightarrow>
         (case (if 1 < num
                then (case np_divide delta (of_nat (num - 1)) of
                        Inl e \<Rightarrow> Inl e
                      | Inr step \<Rightarrow>
                          if step = 0
                          then traverse (\<lambda>j. case np_divide (of_nat j) (of_nat (num - 1)) of
                                                 Inl e \<Rightarrow> Inl e
                                               | Inr t \<Rightarrow> np_multiply t delta) [0..<num]
                          else traverse (\<lambda>j. np_multiply (of_nat j) step) [0..<num])
                else traverse (\<lambda>j. np_multiply (of_nat j) delta) [0..<num]) of
            Inl e \<Rightarrow> Inl e
          | Inr y \<Rightarrow>
             (case traverse (\<lambda>t. np_add t start) y of
                Inl e \<Rightarrow> Inl e
              | Inr y' \<Rightarrow> Inr (if 1 < num then butlast y' @ [stop] else y'))))"

definition logspace :: "numlib \<Rightarrow> rat \<Rightarrow> rat \<Rightarrow> nat \<Rightarrow> error + rat list" where
  "logspace L start stop num =
     (case linspace start stop num of
        Inl e \<Rightarrow> Inl e
      | Inr y \<Rightarrow> traverse (np_power L 10) y)"

definition x_range :: "numlib \<Rightarrow> error + rat list" where
  "x_range L = logspace L (- 10) 0 50"

subsection \<open>Reference evaluator\<close>

text \<open>
  \<^verbatim>\<open>
  mp.mp.dps = 1000
  ref = [mp.sin(x)/x for z in x_range for x in (mp.mpf(z),)]
  \<close>
  The working precision is global state of mpmath. Setting \<^verbatim>\<open>dps\<close> sets the precision in
  bits to \<^verbatim>\<open>max(1, round((dps + 1) * 3.3219280948873626))\<close>, which is 3325 for 1000 digits.
  Every mpmath operation rounds its exact result to that many bits.
\<close>

record mp_context =
  prec :: nat

definition dps_to_prec :: "nat \<Rightarrow> nat" where
  "dps_to_prec n =
     max 1 (nat (round_half_even (of_nat (n + 1) * (33219280948873626 / 10 ^ 16))))"

definition set_dps :: "nat \<Rightarrow> mp_context \<Rightarrow> mp_context" where
  "set_dps n ctx = ctx\<lparr>prec := dps_to_prec n\<rparr>"

definition mpf :: "mp_context \<Rightarrow> rat \<Rightarrow> rat" where
  "mpf ctx z = round_bits (prec ctx) z"

definition mp_div :: "mp_context \<Rightarrow> rat \<Rightarrow> rat \<Rightarrow> error + rat" where
  "mp_div ctx a b =
     (if b = 0 then Inl ZeroDivisionError else Inr (round_bits (prec ctx) (a / b)))"

definition mp_sub :: "mp_context \<Rightarrow> rat \<Rightarrow> rat \<Rightarrow> rat" where
  "mp_sub ctx a b = round_bits (prec ctx) (a - b)"

definition mp_abs :: "mp_context \<Rightarrow> rat \<Rightarrow> rat" where
  "mp_abs ctx a = round_bits (prec ctx) \<bar>a\<bar>"

text \<open>
  \<^verbatim>\<open>float(m)\<close> of an \<^verbatim>\<open>mpf\<close>, as mpmath 1.x converts: the nearest double, inf beyond
  the double range.
\<close>

definition mp_to_float :: "rat \<Rightarrow> error + rat" where
  "mp_to_float a = f64 a"

definition ref :: "numlib \<Rightarrow> mp_context \<Rightarrow> rat list \<Rightarrow> error + rat list" where
  "ref L ctx xs =
     traverse (\<lambda>z. let x = mpf ctx z in mp_div ctx (mp_sin L (prec ctx) x) x) xs"

subsection \<open>Comparator\<close>

text \<open>
  \<^verbatim>\<open>
  x = x_range
  r_orig = np.sin(x) / x
  r_series = [s(x) for s in series]
  \<close>
  Calling a \<^verbatim>\<open>poly1d\<close> evaluates it by Horner's rule, \<^verbatim>\<open>y = 0; for pv in p: y = y * x + pv\<close>.
\<close>

fun horner :: "rat list \<Rightarrow> rat \<Rightarrow> rat \<Rightarrow> error + rat" where
  "horner [] x y = Inr y"
| "horner (pv # p) x y =
     (case np_multiply y x of
        Inl e \<Rightarrow> Inl e
      | Inr t \<Rightarrow> (case np_add t pv of Inl e \<Rightarrow> Inl e | Inr y' \<Rightarrow> horner p x y'))"

definition polyval :: "poly1d \<Rightarrow> rat list \<Rightarrow> error + rat list" where
  "polyval s xs = traverse (\<lambda>x. horner (coef s) x 0) xs"

definition r_orig :: "numlib \<Rightarrow> rat list \<Rightarrow> error + rat list" where
  "r_orig L xs = traverse (\<lambda>x. np_divide (np_sin L x) x) xs"

definition r_series :: "poly1d list \<Rightarrow> rat list \<Rightarrow> error + rat list list" where
  "r_series ps xs = traverse (\<lambda>s. polyval s xs) ps"

text \<open>
  \<^verbatim>\<open>
  err_orig = np.array([abs(a - b) for a, b in zip(r_orig, ref)])
  err_series = np.array([[abs(a - b) for a, b in zip(rs, ref)] for rs in r_series])

  better = err_orig < err_series
  similar = err_orig == err_series
  worse = err_orig > err_series

  difference = np.abs((err_orig - err_series).astype(float))

  pprint([(d[w].min(), d[w].max()) for d, w in zip(difference, worse)])
  \<close>
  The errors are \<^verbatim>\<open>mpf\<close> numbers: the double is converted exactly and the subtraction is
  mpmath's. \<^verbatim>\<open>err_orig\<close> is one row, \<^verbatim>\<open>err_series\<close> has one row per polynomial, and numpy
  pairs \<^verbatim>\<open>err_orig\<close> with every row of \<^verbatim>\<open>err_series\<close>; all these rows have the length of the
  sample set.
\<close>

definition abs_err :: "mp_context \<Rightarrow> rat list \<Rightarrow> rat list \<Rightarrow> rat list" where
  "abs_err ctx r rf = map (\<lambda>(a, b). mp_abs ctx (mp_sub ctx a b)) (zip r rf)"

definition err_orig :: "mp_context \<Rightarrow> rat list \<Rightarrow> rat list \<Rightarrow> rat list" where
  "err_orig ctx ro rf = abs_err ctx ro rf"

definition err_series :: "mp_context \<Rightarrow> rat list list \<Rightarrow> rat list \<Rightarrow> rat list list" where
  "err_series ctx rss rf = map (\<lambda>rs. abs_err ctx rs rf) rss"

definition better :: "rat list \<Rightarrow> rat list list \<Rightarrow> bool list list" where
  "better eo es = map (\<lambda>row. map (\<lambda>(a, b). a < b) (zip eo row)) es"

definition similar :: "rat list \<Rightarrow> rat list list \<Rightarrow> bool list list" where
  "similar eo es = map (\<lambda>row. map (\<lambda>(a, b). a = b) (zip eo row)) es"

definition worse :: "rat list \<Rightarrow> rat list list \<Rightarrow> bool list list" where
  "worse eo es = map (\<lambda>row. map (\<lambda>(a, b). b < a) (zip eo row)) es"

definition abs_diff :: "mp_context \<Rightarrow> rat \<Rightarrow> rat \<Rightarrow> error + rat" where
  "abs_diff ctx a b =
     (case mp_to_float (mp_sub ctx a b) of Inl e \<Rightarrow> Inl e | Inr d \<Rightarrow> Inr \<bar>d\<bar>)"

definition difference :: "mp_context \<Rightarrow> rat list \<Rightarrow> rat list list \<Rightarrow> error + rat list list" where
  "difference ctx eo es =
     traverse (\<lambda>row. traverse (\<lambda>(a, b). abs_diff ctx a b) (zip eo row)) es"

text \<open>\<^verbatim>\<open>d[w]\<close>: the entries of \<open>d\<close> at the places where the mask \<open>w\<close> is true.\<close>

definition select :: "'a list \<Rightarrow> bool list \<Rightarrow> 'a list" where
  "select d w = map fst (filter snd (zip d w))"

text \<open>\<^verbatim>\<open>.min()\<close> and \<^verbatim>\<open>.max()\<close> of an array: a ValueError when it is empty.\<close>

definition np_min :: "rat list \<Rightarrow> error + rat" where
  "np_min xs = (case xs of [] \<Rightarrow> Inl ValueError | x # r \<Rightarrow> Inr (fold min r x))"

definition np_max :: "rat list \<Rightarrow> error + rat" where
  "np_max xs = (case xs of [] \<Rightarrow> Inl ValueError | x # r \<Rightarrow> Inr (fold max r x))"

definition min_max :: "rat list \<Rightarrow> bool list \<Rightarrow> error + rat \<times> rat" where
  "min_max d w =
     (case np_min (select d w) of
        Inl e \<Rightarrow> Inl e
      | Inr lo \<Rightarrow> (case np_max (select d w) of Inl e \<Rightarrow> Inl e | Inr hi \<Rightarrow> Inr (lo, hi)))"

definition min_max_pairs :: "rat list list \<Rightarrow> bool list list \<Rightarrow> error + (rat \<times> rat) list" where
  "min_max_pairs dss wss = traverse (\<lambda>(d, w). min_max d w) (zip dss wss)"

text \<open>The reporting step of the notebook: the mask passed to the aggregation is \<^verbatim>\<open>worse\<close>.\<close>

definition report :: "mp_context \<Rightarrow> rat list \<Rightarrow> rat list list \<Rightarrow> error + (rat \<times> rat) list" where
  "report ctx eo es =
     (case difference ctx eo es of
        Inl e \<Rightarrow> Inl e
      | Inr dss \<Rightarrow> min_max_pairs dss (worse eo es))"

subsection \<open>Visualizer\<close>

text \<open>
  \<^verbatim>\<open>
  y_data = [np.repeat(len(s.coef), len(x_range)) for s in series]
  for y, b, s, w in zip(y_data, better, similar, worse):
      ax.scatter(x_range[b], y[b], s=50, marker='^', c='#2ca02c')  # green
      ax.scatter(x_range[s], y[s], s=50, marker='o', c='#1f77b4')  # blue
      ax.scatter(x_range[w], y[w], s=50, marker='v', c='#d62728')  # red
  \<close>
  A row of the plot is the three sets of markers drawn for one polynomial.
\<close>

definition y_data :: "poly1d list \<Rightarrow> rat list \<Rightarrow> nat list list" where
  "y_data ps xs = map (\<lambda>s. replicate (length xs) (length (coef s))) ps"

definition scatter :: "rat list \<Rightarrow> nat list \<Rightarrow> bool list \<Rightarrow> (rat \<times> nat) list" where
  "scatter xs y m = zip (select xs m) (select y m)"

record plot_row =
  green :: "(rat \<times> nat) list"
  blue :: "(rat \<times> nat) list"
  red :: "(rat \<times> nat) list"

definition plot_rows ::
  "rat list \<Rightarrow> nat list list \<Rightarrow> bool list list \<Rightarrow> bool list list \<Rightarrow> bool list list \<Rightarrow> plot_row list"
where
  "plot_rows xs ys bs ss ws =
     map (\<lambda>(y, b, s, w). \<lparr>green = scatter xs y b, blue = scatter xs y s, red = scatter xs y w\<rparr>)
       (zip ys (zip bs (zip ss ws)))"

subsection \<open>The whole notebook\<close>

text \<open>
  One run of the notebook, cell after cell, from the state of mpmath it finds. It yields
  what the notebook shows (the polynomials, the masks, the pairs and the plot) together
  with the state of mpmath it leaves behind.
\<close>

record results =
  res_series :: "poly1d list"
  res_better :: "bool list list"
  res_similar :: "bool list list"
  res_worse :: "bool list list"
  res_pairs :: "(rat \<times> rat) list"
  res_plot :: "plot_row list"

definition compare ::
  "mp_context \<Rightarrow> rat list \<Rightarrow> poly1d list \<Rightarrow> rat list \<Rightarrow> rat list \<Rightarrow> rat list list \<Rightarrow> error + results"
where
  "compare ctx xs ps rf ro rss =
     (let eo = err_orig ctx ro rf; es = err_series ctx rss rf
      in case report ctx eo es of
           Inl e \<Rightarrow> Inl e
         | Inr pairs \<Rightarrow>
             Inr \<lparr>res_series = ps, res_better = better eo es, res_similar = similar eo es,
                  res_worse = worse eo es, res_pairs = pairs,
                  res_plot = plot_rows xs (y_data ps xs) (better eo es) (similar eo es) (worse eo es)\<rparr>)"

definition run :: "numlib \<Rightarrow> mp_context \<Rightarrow> error + results \<times> mp_context" where
  "run L ctx0 =
     (case x_range L of
        Inl e \<Rightarrow> Inl e
      | Inr xs \<Rightarrow>
         (case series N of
            Inl e \<Rightarrow> Inl e
          | Inr ps \<Rightarrow>
             (let ctx = set_dps 1000 ctx0
              in case ref L ctx xs of
                   Inl e \<Rightarrow> Inl e
                 | Inr rf \<Rightarrow>
                    (case r_orig L xs of
                       Inl e \<Rightarrow> Inl e
                     | Inr ro \<Rightarrow>
                        (case r_series ps xs of
                           Inl e \<Rightarrow> Inl e
                         | Inr rss \<Rightarrow>
                            (case compare ctx xs ps rf ro rss of
                               Inl e \<Rightarrow> Inl e
                             | Inr res \<Rightarrow> Inr (res, ctx)))))))"

subsection \<open>Closed forms\<close>

text \<open>
  The values the series builder computes, written without the intermediate lists and
  results: the rounded Taylor term of index \<open>i\<close>, the coefficient list by ascending power,
  and the list handed to \<^verbatim>\<open>np.poly1d\<close> for the series of order \<open>i\<close>. The lemmas
  \<open>series_coef_eq\<close> and \<open>series_eq\<close> prove that the builder returns exactly these.
  \<open>step49\<close> is the step of the sample grid's exponents, the double nearest to \<open>10/49\<close>.
\<close>

definition term_at :: "nat \<Rightarrow> rat" where
  "term_at i = round_f64 ((- 1) ^ i / of_int (factorial (2 * i + 1)))"

definition coef_list :: "int \<Rightarrow> rat list" where
  "coef_list n = map (\<lambda>j. if even j then term_at (j div 2) else 0) [0..<nat (2 * n - 1)]"

definition trunc :: "int \<Rightarrow> nat \<Rightarrow> rat list" where
  "trunc n i = getslice_down (coef_list n) (2 * i)"

definition step49 :: rat where
  "step49 = round_f64 (10 / 49)"

subsection \<open>A stand-in numeric library\<close>

text \<open>
  Closed statements about a whole run need a concrete library. This one takes the sines
  from the Taylor polynomial of degree 7 (within \<open>3 * 10^-6\<close> of the sine on \<open>[0, 1]\<close>),
  rounded to a double for numpy and to the working precision for mpmath, and the powers of
  ten with the exponent rounded down to an integer. At the last sample, \<open>10^0 = 1\<close>, its
  values agree with the platform's to five decimal places.
\<close>

definition taylor_sin :: "rat \<Rightarrow> rat" where
  "taylor_sin x = x - x ^ 3 / 6 + x ^ 5 / 120 - x ^ 7 / 5040"

definition demo_lib :: numlib where
  "demo_lib = \<lparr>np_power = \<lambda>b y. f64 (b powi \<lfloor>y\<rfloor>),
                np_sin = \<lambda>x. round_f64 (taylor_sin x),
                mp_sin = \<lambda>p x. round_bits p (taylor_sin x)\<rparr>"

section \<open>Rounding\<close>

lemma round_half_even_err: "\<bar>of_int (round_half_even q) - q\<bar> \<le> 1 / 2"
proof -
  define f where "f = \<lfloor>q\<rfloor>"
  have b: "of_int f \<le> q" "q < of_int f + 1" unfolding f_def by linarith+
  have "round_half_even q = f \<and> q - of_int f \<le> 1 / 2 \<or>
        round_half_even q = f + 1 \<and> 1 / 2 \<le> q - of_int f"
    unfolding round_half_even_def Let_def f_def[symmetric] by auto
  then show ?thesis using b by (auto simp: abs_if)
qed

lemma round_half_even_of_int [simp]: "round_half_even (of_int m) = m"
  by (simp add: round_half_even_def)

lemma round_half_even_le: "q \<le> of_int n \<Longrightarrow> round_half_even q \<le> n"
proof -
  assume h: "q \<le> of_int n"
  have fl: "\<lfloor>q\<rfloor> \<le> n" using h by (simp add: floor_le_iff)
  show ?thesis
  proof (cases "\<lfloor>q\<rfloor> = n")
    case True
    then have "q = of_int n" using h by (metis floor_le_iff le_floor_iff order_antisym of_int_floor_le)
    then show ?thesis by simp
  next
    case False
    then have "\<lfloor>q\<rfloor> + 1 \<le> n" using fl by simp
    then show ?thesis unfolding round_half_even_def Let_def by auto
  qed
qed

lemma round_half_even_ge: "of_int n \<le> q \<Longrightarrow> n \<le> round_half_even q"
proof -
  assume h: "of_int n \<le> q"
  then have "n \<le> \<lfloor>q\<rfloor>" by (simp add: le_floor_iff)
  then show ?thesis unfolding round_half_even_def Let_def by auto
qed

lemma powi2_pos [simp]: "(0::rat) < 2 powi e"
  by (simp add: zero_less_power_int)

lemma powi2_mono: "a \<le> b \<Longrightarrow> (2::rat) powi a \<le> 2 powi b"
  by (rule power_int_increasing) simp_all

lemma powi2_strict_mono: "a < b \<Longrightarrow> (2::rat) powi a < 2 powi b"
  by (rule power_int_strict_increasing) simp_all

lemma powi2_less_imp: "(2::rat) powi a < 2 powi b \<Longrightarrow> a < b"
  using powi2_mono[of b a] by (cases "a < b") auto

text \<open>\<open>ilog2\<close> finds the binade of a nonzero rational.\<close>

lemma ilog2_bounds:
  assumes "q \<noteq> 0"
  shows "2 powi (ilog2 q) \<le> \<bar>q\<bar>" and "\<bar>q\<bar> < 2 powi (ilog2 q + 1)"
proof -
  obtain a b where ab: "quotient_of \<bar>q\<bar> = (a, b)" by (cases "quotient_of \<bar>q\<bar>")
  have bpos: "0 < b" using ab quotient_of_denom_pos by blast
  have qab: "\<bar>q\<bar> = of_int a / of_int b" using ab quotient_of_div by blast
  have apos: "0 < a" 
  proof -
    have "0 < \<bar>q\<bar>" using assms by simp
    then show ?thesis using qab bpos by (simp add: zero_less_divide_iff)
  qed
  define la where "la = bitlen a"
  define lb where "lb = bitlen b"
  have la1: "1 \<le> la" using apos by (auto simp: la_def bitlen_alt_def)
  have lb1: "1 \<le> lb" using bpos by (auto simp: lb_def bitlen_alt_def)
  have a_lo: "(2::rat) powi (la - 1) \<le> of_int a"
  proof -
    have "2 ^ nat (la - 1) \<le> a" using bitlen_bounds[OF apos] by (simp add: la_def)
    then have "(of_int (2 ^ nat (la - 1)) :: rat) \<le> of_int a" by (simp only: of_int_le_iff)
    then show ?thesis using la1 by (simp add: power_int_def)
  qed
  have a_hi: "of_int a < (2::rat) powi la"
  proof -
    have "a < 2 ^ nat la" using bitlen_bounds[OF apos] by (simp add: la_def)
    then have "(of_int a :: rat) < of_int (2 ^ nat la)" by (simp only: of_int_less_iff)
    then show ?thesis using la1 by (simp add: power_int_def)
  qed
  have b_lo: "(2::rat) powi (lb - 1) \<le> of_int b"
  proof -
    have "2 ^ nat (lb - 1) \<le> b" using bitlen_bounds[OF bpos] by (simp add: lb_def)
    then have "(of_int (2 ^ nat (lb - 1)) :: rat) \<le> of_int b" by (simp only: of_int_le_iff)
    then show ?thesis using lb1 by (simp add: power_int_def)
  qed
  have b_hi: "of_int b < (2::rat) powi lb"
  proof -
    have "b < 2 ^ nat lb" using bitlen_bounds[OF bpos] by (simp add: lb_def)
    then have "(of_int b :: rat) < of_int (2 ^ nat lb)" by (simp only: of_int_less_iff)
    then show ?thesis using lb1 by (simp add: power_int_def)
  qed
  have bq: "(0::rat) < of_int b" using bpos by simp
  have lo: "(2::rat) powi (la - lb - 1) < \<bar>q\<bar>"
  proof -
    have "(2::rat) powi (la - lb - 1) * of_int b < 2 powi (la - lb - 1) * 2 powi lb"
      using b_hi by (simp add: mult_strict_left_mono)
    also have "\<dots> = 2 powi (la - 1)" by (simp flip: power_int_add)
    also have "\<dots> \<le> of_int a" by (rule a_lo)
    finally show ?thesis using bq by (simp add: qab pos_less_divide_eq)
  qed
  have hi: "\<bar>q\<bar> < (2::rat) powi (la - lb + 1)"
  proof -
    have "of_int a < (2::rat) powi la" by (rule a_hi)
    also have "\<dots> = 2 powi (la - lb + 1) * 2 powi (lb - 1)" by (simp flip: power_int_add)
    also have "\<dots> \<le> 2 powi (la - lb + 1) * of_int b"
      using b_lo by (simp add: mult_left_mono)
    finally show ?thesis using bq by (simp add: qab pos_divide_less_eq)
  qed
  have il: "ilog2 q = (if 2 powi (la - lb) \<le> \<bar>q\<bar> then la - lb else la - lb - 1)"
    by (simp add: ilog2_def ab la_def lb_def Let_def)
  show "2 powi (ilog2 q) \<le> \<bar>q\<bar>" using lo by (auto simp: il)
  show "\<bar>q\<bar> < 2 powi (ilog2 q + 1)" using hi by (auto simp: il not_le)
qed

lemma ilog2_unique:
  assumes "2 powi e \<le> \<bar>q\<bar>" and "\<bar>q\<bar> < 2 powi (e + 1)"
  shows "ilog2 q = e"
proof -
  have "(0::rat) < 2 powi e" by (simp add: zero_less_power_int)
  with assms(1) have "0 < \<bar>q\<bar>" by linarith
  then have q0: "q \<noteq> 0" by simp
  have "(2::rat) powi e < 2 powi (ilog2 q + 1)"
    using assms(1) ilog2_bounds(2)[OF q0] by simp
  then have 1: "e < ilog2 q + 1" by (rule powi2_less_imp)
  have "(2::rat) powi (ilog2 q) < 2 powi (e + 1)"
    using assms(2) ilog2_bounds(1)[OF q0] by simp
  then have 2: "ilog2 q < e + 1" by (rule powi2_less_imp)
  show ?thesis using 1 2 by simp
qed

lemma ilog2_le:
  assumes "q \<noteq> 0" and "\<bar>q\<bar> \<le> 2 powi k"
  shows "ilog2 q \<le> k"
proof -
  have "(2::rat) powi (ilog2 q) \<le> 2 powi k"
    using ilog2_bounds(1)[OF assms(1)] assms(2) by simp
  then show ?thesis using powi2_strict_mono[of k "ilog2 q"] by (cases "ilog2 q \<le> k") auto
qed

lemma ilog2_ge:
  assumes "2 powi k \<le> \<bar>q\<bar>"
  shows "k \<le> ilog2 q"
proof -
  have "0 < \<bar>q\<bar>" using assms powi2_pos[of k] by linarith
  then have q0: "q \<noteq> 0" by simp
  have "(2::rat) powi k < 2 powi (ilog2 q + 1)"
    using ilog2_bounds(2)[OF q0] assms by simp
  then show ?thesis using powi2_less_imp by fastforce
qed

lemma abs_lt_pow2_ilog2:
  assumes "q \<noteq> 0" and "\<bar>q\<bar> < 2 powi k"
  shows "ilog2 q < k"
proof -
  have "(2::rat) powi (ilog2 q) < 2 powi k"
    using ilog2_bounds(1)[OF assms(1)] assms(2) by simp
  then show ?thesis by (rule powi2_less_imp)
qed

text \<open>Rounding to a multiple of \<open>2^e\<close>: half a unit of error, exact on multiples, monotone at them.\<close>

lemma round_at_zero [simp]: "round_at e 0 = 0"
  using round_half_even_of_int[of 0] by (simp add: round_at_def)

lemma round_at_err: "\<bar>round_at e q - q\<bar> \<le> 2 powi (e - 1)"
proof -
  define s :: rat where "s = 2 powi e"
  have s: "0 < s" by (simp add: s_def)
  have "\<bar>of_int (round_half_even (q / s)) - q / s\<bar> \<le> 1 / 2" by (rule round_half_even_err)
  then have "\<bar>of_int (round_half_even (q / s)) - q / s\<bar> * s \<le> 1 / 2 * s"
    using s by (simp add: mult_right_mono)
  moreover have "\<bar>of_int (round_half_even (q / s)) - q / s\<bar> * s
      = \<bar>of_int (round_half_even (q / s)) * s - q\<bar>"
  proof -
    have "\<bar>of_int (round_half_even (q / s)) - q / s\<bar> * s
        = \<bar>(of_int (round_half_even (q / s)) - q / s) * s\<bar>"
      using s by (simp add: abs_mult)
    also have "(of_int (round_half_even (q / s)) - q / s) * s
        = of_int (round_half_even (q / s)) * s - q"
      using s by (simp add: field_simps)
    finally show ?thesis .
  qed
  moreover have "1 / 2 * s = 2 powi (e - 1)"
    by (simp add: s_def power_int_diff)
  ultimately have "\<bar>of_int (round_half_even (q / s)) * s - q\<bar> \<le> 2 powi (e - 1)"
    by linarith
  then show ?thesis unfolding round_at_def s_def .
qed

lemma round_at_exact:
  assumes "q = of_int m * 2 powi e0" and "e \<le> e0"
  shows "round_at e q = q"
proof -
  have "q / 2 powi e = of_int m * 2 powi (e0 - e)"
    by (simp add: assms(1) power_int_diff)
  also have "(2::rat) powi (e0 - e) = of_int (2 ^ nat (e0 - e))"
    using assms(2) by (simp add: power_int_def)
  finally have "q / 2 powi e = of_int (m * 2 ^ nat (e0 - e))" by simp
  then have "round_at e q = of_int (m * 2 ^ nat (e0 - e)) * 2 powi e"
    unfolding round_at_def by (simp only: round_half_even_of_int)
  also have "\<dots> = q / 2 powi e * 2 powi e"
    using \<open>q / 2 powi e = of_int (m * 2 ^ nat (e0 - e))\<close> by simp
  also have "\<dots> = q" by simp
  finally show ?thesis .
qed

lemma round_at_le:
  assumes "q \<le> of_int n * 2 powi e"
  shows "round_at e q \<le> of_int n * 2 powi e"
proof -
  have "q / 2 powi e \<le> of_int n" using assms by (simp add: pos_divide_le_eq)
  then have "round_half_even (q / 2 powi e) \<le> n" by (rule round_half_even_le)
  then have "(of_int (round_half_even (q / 2 powi e)) :: rat) \<le> of_int n" by simp
  then show ?thesis unfolding round_at_def by (simp add: mult_right_mono)
qed

lemma round_at_ge:
  assumes "of_int n * 2 powi e \<le> q"
  shows "of_int n * 2 powi e \<le> round_at e q"
proof -
  have "of_int n \<le> q / 2 powi e" using assms by (simp add: pos_le_divide_eq)
  then have "n \<le> round_half_even (q / 2 powi e)" by (rule round_half_even_ge)
  then have "(of_int n :: rat) \<le> of_int (round_half_even (q / 2 powi e))" by simp
  then show ?thesis unfolding round_at_def by (simp add: mult_right_mono)
qed

lemma round_at_nonneg: "0 \<le> q \<Longrightarrow> 0 \<le> round_at e q"
  using round_at_ge[of 0 e q] by simp

lemma round_at_le_pow2:
  assumes "q \<le> 2 powi k" and "e \<le> k"
  shows "round_at e q \<le> 2 powi k"
proof -
  have "(2::rat) powi k = of_int (2 ^ nat (k - e)) * 2 powi e"
  proof -
    have "(2::rat) powi k = 2 powi (k - e) * 2 powi e" by (simp flip: power_int_add)
    also have "(2::rat) powi (k - e) = of_int (2 ^ nat (k - e))"
      using assms(2) by (simp add: power_int_def)
    finally show ?thesis .
  qed
  then show ?thesis using round_at_le[of q "2 ^ nat (k - e)" e] assms(1) by simp
qed

lemma round_at_ge_neg_pow2:
  assumes "- (2 powi k) \<le> q" and "e \<le> k"
  shows "- (2 powi k) \<le> round_at e q"
proof -
  have "(2::rat) powi k = of_int (2 ^ nat (k - e)) * 2 powi e"
  proof -
    have "(2::rat) powi k = 2 powi (k - e) * 2 powi e" by (simp flip: power_int_add)
    also have "(2::rat) powi (k - e) = of_int (2 ^ nat (k - e))"
      using assms(2) by (simp add: power_int_def)
    finally show ?thesis .
  qed
  then have "- ((2::rat) powi k) = of_int (- (2 ^ nat (k - e))) * 2 powi e" by simp
  then show ?thesis using round_at_ge[of "- (2 ^ nat (k - e))" e q] assms(1) by simp
qed

lemma scaled_int:
  assumes "e \<le> 0"
  shows "of_int (m * 2 ^ nat (- e)) * 2 powi e = (of_int m :: rat)"
proof -
  have "(of_int (2 ^ nat (- e)) :: rat) = 2 powi (- e)" using assms by (simp add: power_int_def)
  then have "(of_int (m * 2 ^ nat (- e)) :: rat) * 2 powi e = of_int m * (2 powi (- e) * 2 powi e)"
    by (simp add: mult.assoc)
  also have "(2::rat) powi (- e) * 2 powi e = 1" by (simp flip: power_int_add)
  finally show ?thesis by simp
qed

text \<open>Doubles: half an ulp of relative error in the normal range, and no crossing of a power of two or of an integer.\<close>

lemma round_f64_zero [simp]: "round_f64 0 = 0"
  by (simp add: round_f64_def)

lemma round_f64_err:
  "\<bar>round_f64 q - q\<bar> \<le> 2 powi (max (ilog2 q - 52) (- 1074) - 1)"
proof (cases "q = 0")
  case True
  then show ?thesis using powi2_pos[of "max (ilog2 q - 52) (- 1074) - 1"] by simp
next
  case False
  then show ?thesis by (simp add: round_f64_def round_at_err)
qed

lemma round_f64_rel:
  assumes "2 powi (- 1022) \<le> \<bar>q\<bar>"
  shows "\<bar>round_f64 q - q\<bar> \<le> 2 powi (- 53) * \<bar>q\<bar>"
proof -
  have il: "- 1022 \<le> ilog2 q" using assms by (rule ilog2_ge)
  have "0 < \<bar>q\<bar>" using assms powi2_pos[of "- 1022"] by linarith
  then have q0: "q \<noteq> 0" by simp
  have "max (ilog2 q - 52) (- 1074) = ilog2 q - 52" using il by simp
  then have "\<bar>round_f64 q - q\<bar> \<le> 2 powi (ilog2 q - 52 - 1)"
    using round_f64_err[of q] by simp
  also have "ilog2 q - 52 - 1 = - 53 + ilog2 q" by simp
  also have "(2::rat) powi (- 53 + ilog2 q) = 2 powi (- 53) * 2 powi (ilog2 q)"
    by (rule power_int_add) simp
  also have "\<dots> \<le> 2 powi (- 53) * \<bar>q\<bar>"
    using ilog2_bounds(1)[OF q0] by (simp add: mult_left_mono)
  finally show ?thesis .
qed

lemma round_f64_ne0:
  assumes "2 powi (- 1022) \<le> \<bar>q\<bar>"
  shows "round_f64 q \<noteq> 0"
proof
  assume "round_f64 q = 0"
  then have "\<bar>q\<bar> \<le> 2 powi (- 53) * \<bar>q\<bar>" using round_f64_rel[OF assms] by simp
  moreover have "0 < \<bar>q\<bar>" using assms powi2_pos[of "- 1022"] by linarith
  moreover have "(2::rat) powi (- 53) < 1" using powi2_strict_mono[of "- 53" 0] by simp
  ultimately show False by (smt (verit) mult_less_cancel_right2 not_le)
qed

lemma round_f64_abs_le_pow2:
  assumes "- 1074 \<le> k" and "\<bar>q\<bar> \<le> 2 powi k"
  shows "\<bar>round_f64 q\<bar> \<le> 2 powi k"
proof (cases "q = 0")
  case True
  then show ?thesis using powi2_pos[of k] by simp
next
  case False
  define e where "e = max (ilog2 q - 52) (- 1074)"
  have "ilog2 q \<le> k" using False assms(2) by (rule ilog2_le)
  then have ek: "e \<le> k" using assms(1) by (simp add: e_def)
  have r: "round_f64 q = round_at e q" using False by (simp add: round_f64_def e_def)
  have "q \<le> 2 powi k" "- (2 powi k) \<le> q" using assms(2) by (auto simp: abs_le_iff)
  then have "round_at e q \<le> 2 powi k" "- (2 powi k) \<le> round_at e q"
    using ek by (auto intro: round_at_le_pow2 round_at_ge_neg_pow2)
  then show ?thesis by (simp add: r abs_le_iff)
qed

lemma round_f64_nonneg: "0 \<le> q \<Longrightarrow> 0 \<le> round_f64 q"
  by (simp add: round_f64_def round_at_nonneg)

lemma round_f64_exact:
  assumes "q = of_int m * 2 powi e0" and "\<bar>m\<bar> < 2 ^ 53" and "- 1074 \<le> e0"
  shows "round_f64 q = q"
proof (cases "q = 0")
  case True
  then show ?thesis by simp
next
  case False
  have "\<bar>q\<bar> = of_int \<bar>m\<bar> * 2 powi e0" by (simp add: assms(1) abs_mult)
  also have "\<dots> < of_int (2 ^ 53) * 2 powi e0"
    using assms(2) by (simp only: mult_less_cancel_right_pos powi2_pos of_int_less_iff)
  also have "\<dots> = 2 powi (53 + e0)" by (simp add: power_int_add)
  finally have "ilog2 q < 53 + e0" using False by (intro abs_lt_pow2_ilog2)
  then have "max (ilog2 q - 52) (- 1074) \<le> e0" using assms(3) by simp
  then show ?thesis using False assms(1) by (simp add: round_f64_def round_at_exact)
qed

lemma round_f64_of_int: "\<bar>m\<bar> < 2 ^ 53 \<Longrightarrow> round_f64 (of_int m) = of_int m"
  using round_f64_exact[of "of_int m" m 0] by simp

lemma round_f64_le_of_int:
  assumes "q \<le> of_int m" and "\<bar>q\<bar> < 2 powi 53"
  shows "round_f64 q \<le> of_int m"
proof (cases "q = 0")
  case True
  then show ?thesis using assms(1) by simp
next
  case False
  define e where "e = max (ilog2 q - 52) (- 1074)"
  have "ilog2 q < 53" using False assms(2) by (rule abs_lt_pow2_ilog2)
  then have e0: "e \<le> 0" by (simp add: e_def)
  have eq: "of_int (m * 2 ^ nat (- e)) * 2 powi e = (of_int m :: rat)" using e0 by (rule scaled_int)
  have "q \<le> of_int (m * 2 ^ nat (- e)) * 2 powi e" using assms(1) by (simp only: eq)
  then have "round_at e q \<le> of_int (m * 2 ^ nat (- e)) * 2 powi e" by (rule round_at_le)
  then have "round_at e q \<le> of_int m" by (simp only: eq)
  then show ?thesis using False by (simp add: round_f64_def e_def)
qed

lemma round_f64_ge_of_int:
  assumes "of_int m \<le> q" and "\<bar>q\<bar> < 2 powi 53"
  shows "of_int m \<le> round_f64 q"
proof (cases "q = 0")
  case True
  then show ?thesis using assms(1) by simp
next
  case False
  define e where "e = max (ilog2 q - 52) (- 1074)"
  have "ilog2 q < 53" using False assms(2) by (rule abs_lt_pow2_ilog2)
  then have e0: "e \<le> 0" by (simp add: e_def)
  have eq: "of_int (m * 2 ^ nat (- e)) * 2 powi e = (of_int m :: rat)" using e0 by (rule scaled_int)
  have "of_int (m * 2 ^ nat (- e)) * 2 powi e \<le> q" using assms(1) by (simp only: eq)
  then have "of_int (m * 2 ^ nat (- e)) * 2 powi e \<le> round_at e q" by (rule round_at_ge)
  then have "of_int m \<le> round_at e q" by (simp only: eq)
  then show ?thesis using False by (simp add: round_f64_def e_def)
qed

lemma f64_overflows_iff: "f64_overflows r \<longleftrightarrow> 2 powi 1024 \<le> \<bar>r\<bar>"
  by (simp add: f64_overflows_def)

lemma f64_small:
  assumes "\<bar>q\<bar> \<le> 2 powi k" and "- 1074 \<le> k" and "k < 1024"
  shows "f64 q = Inr (round_f64 q)"
proof -
  have "\<bar>round_f64 q\<bar> \<le> 2 powi k" using assms(2,1) by (rule round_f64_abs_le_pow2)
  also have "(2::rat) powi k < 2 powi 1024" using assms(3) by (rule powi2_strict_mono)
  finally have "\<not> f64_overflows (round_f64 q)" by (simp add: f64_overflows_iff)
  then show ?thesis by (simp add: f64_def)
qed

lemma f64_of_int: "\<bar>m\<bar> < 2 ^ 53 \<Longrightarrow> f64 (of_int m) = Inr (of_int m)"
proof -
  assume m: "\<bar>m\<bar> < 2 ^ 53"
  have "(of_int \<bar>m\<bar> :: rat) \<le> of_int (2 ^ 53)" using m by (simp only: of_int_le_iff)
  then have "\<bar>(of_int m :: rat)\<bar> \<le> 2 powi 53" by simp
  then have "f64 (of_int m) = Inr (round_f64 (of_int m))" by (rule f64_small) simp_all
  then show ?thesis using m by (simp add: round_f64_of_int)
qed

lemma f64_not_div0: "f64 q \<noteq> Inl FloatDivideByZero"
  by (simp add: f64_def Let_def)

lemma py_truediv_small:
  assumes "b \<noteq> 0" and "\<bar>a\<bar> \<le> \<bar>b\<bar>"
  shows "py_truediv a b = Inr (round_f64 (of_int a / of_int b))"
proof -
  have "\<bar>(of_int a :: rat) / of_int b\<bar> \<le> 1"
    using assms by (simp add: abs_divide flip: of_int_abs)
  then have "\<bar>(of_int a :: rat) / of_int b\<bar> \<le> 2 powi 0" by simp
  then have "\<bar>round_f64 (of_int a / of_int b)\<bar> \<le> 2 powi 0"
    by (intro round_f64_abs_le_pow2) simp_all
  also have "(2::rat) powi 0 < 2 powi 1024" by (rule powi2_strict_mono) simp
  finally have "\<not> f64_overflows (round_f64 (of_int a / of_int b))"
    by (simp add: f64_overflows_iff)
  then show ?thesis using assms(1) by (simp add: py_truediv_def)
qed

text \<open>\<^verbatim>\<open>mpf\<close> numbers: exact on what fits the precision, never zero on a nonzero number.\<close>

lemma round_bits_zero [simp]: "round_bits p 0 = 0"
  by (simp add: round_bits_def)

lemma round_bits_exact:
  assumes "q = of_int m * 2 powi e0" and "\<bar>m\<bar> < 2 ^ p"
  shows "round_bits p q = q"
proof (cases "q = 0")
  case True
  then show ?thesis by simp
next
  case False
  have "\<bar>q\<bar> = of_int \<bar>m\<bar> * 2 powi e0" by (simp add: assms(1) abs_mult)
  also have "\<dots> < of_int (2 ^ p) * 2 powi e0"
    using assms(2) by (simp only: mult_less_cancel_right_pos powi2_pos of_int_less_iff)
  also have "\<dots> = 2 powi (int p + e0)" by (simp add: power_int_add)
  finally have "ilog2 q < int p + e0" using False by (intro abs_lt_pow2_ilog2)
  then have "ilog2 q - int p + 1 \<le> e0" by simp
  then show ?thesis using False assms(1) by (simp add: round_bits_def round_at_exact)
qed

lemma round_bits_of_int: "\<bar>m\<bar> < 2 ^ p \<Longrightarrow> round_bits p (of_int m) = of_int m"
  using round_bits_exact[of "of_int m" m 0 p] by simp

lemma round_bits_ne0:
  assumes "q \<noteq> 0" and "1 \<le> p"
  shows "round_bits p q \<noteq> 0"
proof
  assume z: "round_bits p q = 0"
  define e where "e = ilog2 q - int p + 1"
  have "round_at e q = 0" using z assms(1) by (simp add: round_bits_def e_def)
  then have "\<bar>q\<bar> \<le> 2 powi (e - 1)" using round_at_err[of e q] by simp
  also have "(2::rat) powi (e - 1) < 2 powi (ilog2 q)"
    using assms(2) by (intro powi2_strict_mono) (simp add: e_def)
  also have "\<dots> \<le> \<bar>q\<bar>" by (rule ilog2_bounds(1)[OF assms(1)])
  finally show False by simp
qed

lemma dps_to_prec_pos: "1 \<le> dps_to_prec n"
  by (simp add: dps_to_prec_def)

lemma set_dps_eq: "set_dps n ctx = \<lparr>prec = dps_to_prec n\<rparr>"
  by (cases ctx) (simp add: set_dps_def)

section \<open>Sequences of fallible steps\<close>

lemma traverse_all_Inr:
  "(\<And>x. x \<in> set xs \<Longrightarrow> f x = Inr (g x)) \<Longrightarrow> traverse f xs = Inr (map g xs)"
  by (induction xs) simp_all

lemma traverse_Inr_length: "traverse f xs = Inr ys \<Longrightarrow> length ys = length xs"
  by (induction xs arbitrary: ys) (auto split: sum.splits)

lemma traverse_Inr_nth:
  "traverse f xs = Inr ys \<Longrightarrow> i < length xs \<Longrightarrow> f (xs ! i) = Inr (ys ! i)"
proof (induction xs arbitrary: ys i)
  case Nil
  then show ?case by simp
next
  case (Cons x xs)
  then show ?case by (cases i) (auto split: sum.splits)
qed

lemma traverse_Inl: "traverse f xs = Inl e \<Longrightarrow> \<exists>x\<in>set xs. f x = Inl e"
  by (induction xs) (auto split: sum.splits)

lemma traverse_Inr_iff:
  "traverse f xs = Inr ys \<longleftrightarrow>
     length ys = length xs \<and> (\<forall>i<length xs. f (xs ! i) = Inr (ys ! i))"
proof (induction xs arbitrary: ys)
  case Nil
  then show ?case by auto
next
  case (Cons x xs)
  show ?case
  proof (cases ys)
    case Nil
    then show ?thesis by (auto split: sum.splits)
  next
    case (Cons y ys')
    have "(\<forall>i<Suc (length xs). f ((x # xs) ! i) = Inr ((y # ys') ! i)) \<longleftrightarrow>
          f x = Inr y \<and> (\<forall>i<length xs. f (xs ! i) = Inr (ys' ! i))"
      by (auto simp: less_Suc_eq_0_disj)
    then show ?thesis using Cons.IH[of ys'] Cons by (auto split: sum.splits)
  qed
qed

lemma traverse_ex:
  "(\<And>x. x \<in> set xs \<Longrightarrow> \<exists>y. f x = Inr y \<and> P y) \<Longrightarrow>
   \<exists>ys. traverse f xs = Inr ys \<and> length ys = length xs \<and> (\<forall>y\<in>set ys. P y)"
proof (induction xs)
  case Nil
  then show ?case by simp
next
  case (Cons x xs)
  obtain y where y: "f x = Inr y" "P y" using Cons.prems[of x] by auto
  obtain ys where ys: "traverse f xs = Inr ys" "length ys = length xs" "\<forall>y\<in>set ys. P y"
    using Cons.IH Cons.prems by auto
  show ?case using y ys by simp
qed

lemma traverse_total:
  "(\<And>x. x \<in> set xs \<Longrightarrow> \<exists>y. f x = Inr y) \<Longrightarrow> \<exists>ys. traverse f xs = Inr ys"
proof (induction xs)
  case Nil
  then show ?case by simp
next
  case (Cons x xs)
  obtain y where y: "f x = Inr y" using Cons.prems[of x] by auto
  obtain ys where ys: "traverse f xs = Inr ys" using Cons.IH Cons.prems by auto
  show ?case using y ys by simp
qed

lemma traverse_fails:
  "x \<in> set xs \<Longrightarrow> f x = Inl e \<Longrightarrow> \<exists>e'. traverse f xs = Inl e'"
  by (induction xs) (auto split: sum.splits)

section \<open>The series builder\<close>

lemma factorial_eq_fact: "factorial n = fact n"
  by (induction n) simp_all

lemma factorial_pos: "0 < factorial n"
  by (simp add: factorial_eq_fact)

lemma py_truediv_term:
  "py_truediv ((- 1) ^ i) (factorial (2 * i + 1)) = Inr (term_at i)"
proof -
  have "factorial (2 * i + 1) \<noteq> 0" using factorial_pos[of "2 * i + 1"] by linarith
  moreover have "\<bar>(- 1 :: int) ^ i\<bar> = 1" by (simp add: power_abs)
  then have "\<bar>(- 1 :: int) ^ i\<bar> \<le> \<bar>factorial (2 * i + 1)\<bar>"
    using factorial_pos[of "2 * i + 1"] by linarith
  ultimately show ?thesis unfolding term_at_def
    using py_truediv_small[of "factorial (2 * i + 1)" "(- 1) ^ i"] by simp
qed

lemma taylor_terms_eq: "taylor_terms n = Inr (map term_at [0..<nat n])"
  unfolding taylor_terms_def by (rule traverse_all_Inr) (rule py_truediv_term)

lemma setslice_even_ok:
  "length vs = (length xs + 1) div 2 \<Longrightarrow>
   setslice_even xs vs = Inr (map (\<lambda>j. if even j then vs ! (j div 2) else xs ! j) [0..<length xs])"
  by (simp add: setslice_even_def)

lemma series_coef_eq: "series_coef n = Inr (coef_list n)"
proof -
  have len: "nat n = (nat (2 * n - 1) + 1) div 2" by (cases "1 \<le> n") auto
  have "map (\<lambda>j. if even j then map term_at [0..<nat n] ! (j div 2)
                  else replicate (nat (2 * n - 1)) (0::rat) ! j) [0..<nat (2 * n - 1)]
      = coef_list n"
    unfolding coef_list_def
  proof (rule map_cong[OF refl])
    fix j assume "j \<in> set [0..<nat (2 * n - 1)]"
    then have j: "j < nat (2 * n - 1)" by simp
    then have "j div 2 < nat n" by (cases "1 \<le> n") auto
    then show "(if even j then map term_at [0..<nat n] ! (j div 2)
                else replicate (nat (2 * n - 1)) (0::rat) ! j)
             = (if even j then term_at (j div 2) else 0)"
      using j by simp
  qed
  then have eq: "map (\<lambda>j. if even j then map term_at [0..<nat n] ! (j div 2)
                  else replicate (nat (2 * n - 1)) (0::rat) ! j)
                [0..<length (replicate (nat (2 * n - 1)) (0::rat))]
      = coef_list n" by simp
  have "series_coef n = setslice_even (replicate (nat (2 * n - 1)) 0) (map term_at [0..<nat n])"
    by (simp add: series_coef_def taylor_terms_eq)
  also have "\<dots> = Inr (map (\<lambda>j. if even j then map term_at [0..<nat n] ! (j div 2)
                  else replicate (nat (2 * n - 1)) (0::rat) ! j)
                [0..<length (replicate (nat (2 * n - 1)) (0::rat))])"
    by (rule setslice_even_ok) (use len in simp)
  also have "\<dots> = Inr (coef_list n)" by (simp only: eq)
  finally show ?thesis .
qed

lemma length_coef_list [simp]: "length (coef_list n) = nat (2 * n - 1)"
  by (simp add: coef_list_def)

lemma coef_list_nth:
  "j < nat (2 * n - 1) \<Longrightarrow> coef_list n ! j = (if even j then term_at (j div 2) else 0)"
  by (simp add: coef_list_def)

lemma series_eq:
  "series n = Inr (map (\<lambda>i. poly1d (getslice_down (coef_list n) (2 * i))) [1..<nat n])"
  by (simp add: series_def series_coef_eq)

lemma dropWhile_eq_drop: "dropWhile P xs = drop (length (takeWhile P xs)) xs"
  by (induction xs) simp_all

lemma takeWhile_nth_P: "i < length (takeWhile P xs) \<Longrightarrow> P (xs ! i)"
  by (metis nth_mem set_takeWhileD takeWhile_nth)

text \<open>The coefficients kept by poly1d, for a list that ends in a nonzero entry.\<close>

lemma poly1d_coef:
  assumes "c \<noteq> []" and "last c \<noteq> 0"
  shows "coef (poly1d c) = drop (length (takeWhile (\<lambda>a. a = 0) c)) c"
    and "length (takeWhile (\<lambda>a. a = 0) c) < length c"
proof -
  have "last c \<in> set c" using assms(1) by simp
  then have "\<not> (\<forall>a\<in>set c. a = 0)" using assms(2) by auto
  then have ne: "dropWhile (\<lambda>a. a = 0) c \<noteq> []" by (simp add: dropWhile_eq_Nil_conv)
  have "coef (poly1d c) = dropWhile (\<lambda>a. a = 0) c"
    unfolding poly1d_def Let_def using ne by auto
  then show "coef (poly1d c) = drop (length (takeWhile (\<lambda>a. a = 0) c)) c"
    by (simp only: dropWhile_eq_drop)
  show "length (takeWhile (\<lambda>a. a = 0) c) < length c"
    using ne by (simp add: dropWhile_eq_drop)
qed

lemma term_at_0 [simp]: "term_at 0 = 1"
  using round_f64_of_int[of 1] by (simp add: term_at_def)

lemma coef_list_0: "1 \<le> n \<Longrightarrow> coef_list n ! 0 = 1"
  by (simp add: coef_list_nth)

lemma trunc_props:
  assumes "1 \<le> i" and "int i < n"
  shows "length (trunc n i) = 2 * i + 1"
    and "\<And>j. j \<le> 2 * i \<Longrightarrow> trunc n i ! j = coef_list n ! (2 * i - j)"
    and "trunc n i \<noteq> []" and "last (trunc n i) = 1"
proof -
  have le: "2 * i + 1 \<le> nat (2 * n - 1)" using assms by auto
  show len: "length (trunc n i) = 2 * i + 1"
    using le by (simp add: trunc_def getslice_down_def)
  show nth: "trunc n i ! j = coef_list n ! (2 * i - j)" if "j \<le> 2 * i" for j
    using that le by (simp add: trunc_def getslice_down_def rev_nth)
  show ne: "trunc n i \<noteq> []" using len by auto
  have "last (trunc n i) = trunc n i ! (2 * i)" using len ne by (simp add: last_conv_nth)
  also have "\<dots> = coef_list n ! 0" using nth[of "2 * i"] by simp
  also have "\<dots> = 1" using assms by (simp add: coef_list_0)
  finally show "last (trunc n i) = 1" .
qed

lemma series_nth:
  assumes "1 \<le> i" and "int i < n"
  shows "series n = Inr ps \<Longrightarrow> ps ! (i - 1) = poly1d (trunc n i)"
proof -
  assume "series n = Inr ps"
  then have ps: "ps = map (\<lambda>i. poly1d (getslice_down (coef_list n) (2 * i))) [1..<nat n]"
    by (simp add: series_eq)
  have "i - 1 < length [1..<nat n]" using assms by auto
  moreover have "[1..<nat n] ! (i - 1) = i" using assms by (auto simp: nth_upt)
  ultimately show ?thesis by (simp add: ps trunc_def del: upt_Suc)
qed

lemma series_length: "series n = Inr ps \<Longrightarrow> length ps = nat n - 1"
  by (auto simp: series_eq)

text \<open>The polynomial of order i: what is kept of the coefficient list.\<close>

lemma poly_trunc:
  assumes "1 \<le> i" and "int i < n"
  defines "p \<equiv> poly1d (trunc n i)"
  shows "1 \<le> length (coef p)" and "length (coef p) \<le> 2 * i + 1"
    and "\<And>j. j < length (coef p) \<Longrightarrow> coef p ! j = coef_list n ! (length (coef p) - 1 - j)"
    and "\<And>j. j \<le> 2 * i \<Longrightarrow> coef_at p j = coef_list n ! j"
    and "\<And>j. 2 * i < j \<Longrightarrow> coef_at p j = 0"
    and "length (coef p) = 2 * i + 1 \<longleftrightarrow> term_at i \<noteq> 0"
proof -
  define c where "c = trunc n i"
  define k where "k = length (takeWhile (\<lambda>a. a = 0) c)"
  note tp = trunc_props[OF assms(1,2), folded c_def]
  have "last c \<noteq> 0" using tp(4) by simp
  note pc = poly1d_coef[OF tp(3) this, folded k_def]
  have cf: "coef p = drop k c" using pc(1) by (simp add: p_def c_def)
  have kl: "k < 2 * i + 1" using pc(2) tp(1) by simp
  have len: "length (coef p) = 2 * i + 1 - k" by (simp add: cf tp(1))
  show "1 \<le> length (coef p)" using len kl by simp
  show "length (coef p) \<le> 2 * i + 1" using len by simp
  show nth: "coef p ! j = coef_list n ! (length (coef p) - 1 - j)" if "j < length (coef p)" for j
  proof -
    have "coef p ! j = c ! (k + j)" using that by (simp add: cf)
    also have "\<dots> = coef_list n ! (2 * i - (k + j))" using that len by (intro tp(2)) simp
    also have "2 * i - (k + j) = length (coef p) - 1 - j" using len by simp
    finally show ?thesis .
  qed
  have deg: "degree p = 2 * i - k" using len kl by (simp add: degree_def)
  have zero: "c ! t = 0" if "t < k" for t
    using takeWhile_nth_P[of t "\<lambda>a. a = 0" c] that by (simp add: k_def)
  show "coef_at p j = coef_list n ! j" if "j \<le> 2 * i" for j
  proof (cases "degree p < j")
    case True
    then have "2 * i - j < k" using deg that kl by simp
    then have "c ! (2 * i - j) = 0" by (rule zero)
    moreover have "c ! (2 * i - j) = coef_list n ! (2 * i - (2 * i - j))" by (intro tp(2)) simp
    ultimately show ?thesis using True that by (simp add: coef_at_def)
  next
    case False
    then have "coef_at p j = coef p ! (degree p - j)" by (simp add: coef_at_def)
    also have "\<dots> = coef_list n ! (length (coef p) - 1 - (degree p - j))"
      using False len kl deg by (intro nth) simp
    also have "length (coef p) - 1 - (degree p - j) = j" using False len kl deg by simp
    finally show ?thesis .
  qed
  show "coef_at p j = 0" if "2 * i < j" for j
  proof -
    have "degree p < j" using that deg by simp
    then show ?thesis by (simp add: coef_at_def)
  qed
  have hd: "c ! 0 = term_at i"
  proof -
    have "c ! 0 = coef_list n ! (2 * i - 0)" by (intro tp(2)) simp
    also have "\<dots> = term_at i" using assms by (subst coef_list_nth) auto
    finally show ?thesis .
  qed
  show "length (coef p) = 2 * i + 1 \<longleftrightarrow> term_at i \<noteq> 0"
  proof
    assume "length (coef p) = 2 * i + 1"
    then have "k = 0" using len kl by simp
    then have "\<not> (c ! 0 = 0)"
      using tp(3) by (cases c) (auto simp: k_def split: if_splits)
    then show "term_at i \<noteq> 0" by (simp add: hd)
  next
    assume "term_at i \<noteq> 0"
    then have "c ! 0 \<noteq> 0" by (simp add: hd)
    then have "k = 0" using zero[of 0] by (cases "k = 0") auto
    then show "length (coef p) = 2 * i + 1" using len by simp
  qed
qed

lemma term_at_accurate:
  assumes "(fact (2 * i + 1) :: rat) \<le> 2 ^ 1022"
  shows "\<bar>term_at i - (- 1) ^ i / fact (2 * i + 1)\<bar> \<le> 2 powi (- 53) / fact (2 * i + 1)"
    and "term_at i \<noteq> 0"
proof -
  define q :: rat where "q = (- 1) ^ i / fact (2 * i + 1)"
  have t: "term_at i = round_f64 q"
    by (simp add: term_at_def q_def factorial_eq_fact del: factorial.simps)
  have fpos: "(0::rat) < fact (2 * i + 1)" by (simp del: fact_Suc)
  have aq: "\<bar>q\<bar> = 1 / fact (2 * i + 1)"
    by (simp add: q_def abs_divide power_abs del: fact_Suc)
  have "1 / (2 ^ 1022 :: rat) \<le> 1 / fact (2 * i + 1)"
    using assms fpos by (intro divide_left_mono) (simp_all del: fact_Suc)
  moreover have "(2::rat) powi (- 1022) = 1 / 2 ^ 1022"
    by (simp add: power_int_minus_divide)
  ultimately have n: "2 powi (- 1022) \<le> \<bar>q\<bar>" by (simp only: aq)
  show "\<bar>term_at i - (- 1) ^ i / fact (2 * i + 1)\<bar> \<le> 2 powi (- 53) / fact (2 * i + 1)"
    using round_f64_rel[OF n] unfolding t aq unfolding q_def by simp
  show "term_at i \<noteq> 0" using round_f64_ne0[OF n] by (simp add: t)
qed

lemma fact_le_pow2_1022:
  assumes "n \<le> 170"
  shows "(fact n :: rat) \<le> 2 ^ 1022"
proof -
  have "(fact n :: rat) \<le> fact 170" using assms by (rule fact_mono)
  also have "(fact 170 :: rat) \<le> 2 ^ 1022" by (simp add: fact_numeral)
  finally show ?thesis .
qed

lemma series_poly:
  assumes "series n = Inr ps" and "1 \<le> k" and "int k < n"
  shows "ps ! (k - 1) = poly1d (trunc n k)"
  using series_nth[OF assms(2,3) assms(1)] .

lemma series_full_length:
  assumes "series n = Inr ps" and "1 \<le> k" and "int k < n" and "2 * k + 1 \<le> 170"
  shows "length (coef (ps ! (k - 1))) = 2 * k + 1"
proof -
  have nz: "term_at k \<noteq> 0" using fact_le_pow2_1022[OF assms(4)] by (rule term_at_accurate(2))
  have e: "ps ! (k - 1) = poly1d (trunc n k)" by (rule series_poly[OF assms(1,2,3)])
  show ?thesis unfolding e using poly_trunc(6)[OF assms(2,3)] nz by blast
qed

lemma series_N_lengths:
  "\<exists>ps. series N = Inr ps \<and> length ps = 7 \<and> (\<forall>i<7. length (coef (ps ! i)) = 2 * i + 3)"
proof -
  obtain ps where ps: "series N = Inr ps" by (simp add: series_eq)
  have "length ps = 7" using series_length[OF ps] by (simp add: N_def)
  moreover have "length (coef (ps ! i)) = 2 * i + 3" if "i < 7" for i
    using series_full_length[OF ps, of "i + 1"] that by (simp add: N_def)
  ultimately show ?thesis using ps by blast
qed

lemma series_N_coef_lengths:
  "map_sum id (map (\<lambda>s. length (coef s))) (series N) = Inr [3, 5, 7, 9, 11, 13, 15]"
proof -
  obtain ps where ps: "series N = Inr ps" "length ps = 7"
      "\<forall>i<7. length (coef (ps ! i)) = 2 * i + 3"
    using series_N_lengths by blast
  have "map (\<lambda>s. length (coef s)) ps = map (\<lambda>i. 2 * i + 3) [0..<7]"
    using ps(2,3) by (intro nth_equalityI) (auto simp del: upt_Suc)
  also have "\<dots> = [3, 5, 7, 9, 11, 13, 15]" by (simp add: upt_rec)
  finally show ?thesis by (simp add: ps(1))
qed

lemma series_N_degrees:
  "map_sum id (map degree) (series N) = Inr [2, 4, 6, 8, 10, 12, 14]"
proof -
  obtain ps where ps: "series N = Inr ps" by (simp add: series_eq)
  have "map (\<lambda>s. length (coef s)) ps = [3, 5, 7, 9, 11, 13, 15]"
    using series_N_coef_lengths by (simp add: ps)
  moreover have "map degree ps = map (\<lambda>n. n - 1) (map (\<lambda>s. length (coef s)) ps)"
    by (simp add: degree_def)
  ultimately have "map degree ps = [2, 4, 6, 8, 10, 12, 14]"
    by simp
  then show ?thesis by (simp add: ps)
qed

section \<open>The sample set\<close>

lemma butlast_upt0: "butlast [0..<n] = [0..<n - 1]"
  by (cases n) simp_all

lemma step49_bounds: "0 < step49" "step49 \<le> 10 / 48"
proof -
  have "(2::rat) powi (- 1022) \<le> 2 powi (- 3)" by (rule powi2_mono) simp
  also have "\<dots> \<le> \<bar>10 / 49\<bar>" by simp
  finally have n: "(2::rat) powi (- 1022) \<le> \<bar>10 / 49\<bar>" .
  have "(2::rat) powi (- 53) \<le> 2 powi (- 6)" by (rule powi2_mono) simp
  then have p: "(2::rat) powi (- 53) \<le> 1 / 64" by simp
  have "\<bar>step49 - 10 / 49\<bar> \<le> 2 powi (- 53) * \<bar>10 / 49\<bar>"
    unfolding step49_def by (rule round_f64_rel[OF n])
  also have "\<dots> \<le> 1 / 64 * \<bar>10 / 49 :: rat\<bar>" using p by (intro mult_right_mono) simp_all
  finally have "\<bar>step49 - 10 / 49\<bar> \<le> 1 / 64 * (10 / 49)" by simp
  then show "0 < step49" "step49 \<le> 10 / 48" by linarith+
qed

lemma linspace_samples:
  "\<exists>ys. linspace (- 10) 0 50 = Inr ys \<and> length ys = 50 \<and> (\<forall>y\<in>set ys. - 10 \<le> y \<and> y \<le> 0)"
proof -
  define num :: nat where "num = 50"
  define t where "t j = round_f64 (of_nat j * step49)" for j :: nat
  define u where "u j = round_f64 (t j + - 10)" for j :: nat
  have delta: "np_subtract 0 (- 10) = Inr 10"
    using f64_of_int[of 10] by (simp add: np_subtract_def)
  have step: "np_divide 10 (of_nat (num - 1)) = Inr step49"
  proof -
    have "\<bar>10 / 49 :: rat\<bar> \<le> 2 powi 0" by simp
    then have "f64 (10 / 49) = Inr (round_f64 (10 / 49))" by (rule f64_small) simp_all
    then show ?thesis by (simp add: np_divide_def num_def step49_def)
  qed
  have js: "0 \<le> of_nat j * step49 \<and> of_nat j * step49 \<le> 16" if "j < num" for j
  proof -
    have "(of_nat j :: rat) \<le> 49" using that by (simp add: num_def)
    then have "of_nat j * step49 \<le> 49 * (10 / 48)"
      using step49_bounds by (intro mult_mono) simp_all
    then show ?thesis using step49_bounds(1) by simp
  qed
  have mul: "np_multiply (of_nat j) step49 = Inr (t j)" if "j \<in> set [0..<num]" for j
  proof -
    have "\<bar>of_nat j * step49\<bar> \<le> 2 powi 4" using js[of j] that by simp
    then show ?thesis unfolding np_multiply_def t_def by (rule f64_small) simp_all
  qed
  have tb: "0 \<le> t j \<and> t j \<le> 16" if "j < num" for j
  proof -
    have "\<bar>of_nat j * step49\<bar> \<le> 2 powi 4" using js[OF that] by simp
    then have "\<bar>t j\<bar> \<le> 2 powi 4" unfolding t_def by (intro round_f64_abs_le_pow2) simp_all
    moreover have "0 \<le> t j" unfolding t_def using js[OF that] by (intro round_f64_nonneg) simp
    ultimately show ?thesis by simp
  qed
  have t10: "t j \<le> 10" if "j < num - 1" for j
  proof -
    have "(of_nat j :: rat) \<le> 48" using that by (simp add: num_def)
    then have "of_nat j * step49 \<le> 48 * (10 / 48)"
      using step49_bounds by (intro mult_mono) simp_all
    then have le: "of_nat j * step49 \<le> of_int 10" by simp
    have "j < num" using that by simp
    then have "\<bar>of_nat j * step49\<bar> \<le> 16" using js[of j] by simp
    also have "(16::rat) < 2 powi 53" by simp
    finally show ?thesis using round_f64_le_of_int[OF le] by (simp add: t_def)
  qed
  have add: "np_add (t j) (- 10) = Inr (u j)" if "j \<in> set [0..<num]" for j
  proof -
    have "\<bar>t j + - 10\<bar> \<le> 2 powi 5" using tb[of j] that by (simp add: abs_le_iff)
    then show ?thesis unfolding np_add_def u_def by (rule f64_small) simp_all
  qed
  have ub: "- 10 \<le> u j \<and> u j \<le> 0" if "j < num - 1" for j
  proof -
    have "j < num" using that by simp
    then have b: "- 10 \<le> t j + - 10" "t j + - 10 \<le> 0" using tb[of j] t10[OF that] by simp_all
    then have "\<bar>t j + - 10\<bar> \<le> 10" by (simp add: abs_le_iff)
    also have "(10::rat) < 2 powi 53" by simp
    finally have s: "\<bar>t j + - 10\<bar> < 2 powi 53" .
    have "of_int (- 10) \<le> round_f64 (t j + - 10)"
      using b(1) by (intro round_f64_ge_of_int[OF _ s]) simp
    moreover have "round_f64 (t j + - 10) \<le> of_int 0"
      using b(2) by (intro round_f64_le_of_int[OF _ s]) simp
    ultimately show ?thesis by (simp add: u_def)
  qed
  have tr1: "traverse (\<lambda>j. np_multiply (of_nat j) step49) [0..<num] = Inr (map t [0..<num])"
    by (rule traverse_all_Inr) (rule mul)
  have tr2: "traverse (\<lambda>v. np_add v (- 10)) (map t [0..<num]) = Inr (map u [0..<num])"
  proof -
    have "traverse (\<lambda>v. np_add v (- 10)) (map t [0..<num])
        = Inr (map (\<lambda>v. round_f64 (v + - 10)) (map t [0..<num]))"
    proof (rule traverse_all_Inr)
      fix v assume "v \<in> set (map t [0..<num])"
      then obtain j where "j \<in> set [0..<num]" "v = t j" by auto
      then show "np_add v (- 10) = Inr (round_f64 (v + - 10))" using add[of j] by (simp add: u_def)
    qed
    then show ?thesis by (simp add: u_def comp_def)
  qed
  have n1: "1 < num" by (simp add: num_def)
  have s0: "step49 \<noteq> 0" using step49_bounds(1) by simp
  have "linspace (- 10) 0 num = Inr (butlast (map u [0..<num]) @ [0])"
    unfolding linspace_def delta sum.case if_P[OF n1] step if_not_P[OF s0] tr1 tr2 ..
  moreover have "length (butlast (map u [0..<num]) @ [0]) = 50" by (simp add: num_def)
  moreover have "- 10 \<le> y \<and> y \<le> 0" if "y \<in> set (butlast (map u [0..<num]) @ [0])" for y
  proof -
    have "butlast (map u [0..<num]) = map u [0..<num - 1]"
      by (simp add: map_butlast[symmetric] butlast_upt0)
    then have "y = 0 \<or> (\<exists>j<num - 1. y = u j)" using that by auto
    then show ?thesis using ub by auto
  qed
  ultimately show ?thesis unfolding num_def by blast
qed

lemma real_of_rat_powi: "real_of_rat (10 powi k) = 10 powr (of_int k)"
proof (cases "0 \<le> k")
  case True
  then have "real_of_rat (10 powi k) = 10 ^ nat k" by (simp add: power_int_def of_rat_power)
  also have "\<dots> = 10 powr (real (nat k))" by (simp add: powr_realpow)
  also have "real (nat k) = of_int k" using True by simp
  finally show ?thesis .
next
  case False
  then have "(10::rat) powi k = inverse (10 ^ nat (- k))"
    by (simp add: power_int_def power_one_over inverse_eq_divide)
  then have "real_of_rat (10 powi k) = inverse (real_of_rat (10 ^ nat (- k)))"
    by (simp only: of_rat_inverse)
  also have "real_of_rat (10 ^ nat (- k)) = 10 ^ nat (- k)" by (simp add: of_rat_power)
  finally have "real_of_rat (10 powi k) = inverse (10 ^ nat (- k))" .
  also have "\<dots> = inverse (10 powr (real (nat (- k))))" by (simp add: powr_realpow)
  also have "\<dots> = 10 powr (- real (nat (- k)))" by (simp add: powr_minus)
  also have "- real (nat (- k)) = of_int k" using False by simp
  finally show ?thesis .
qed

lemma floor_power_close:
  "\<bar>real_of_rat (10 powi \<lfloor>y\<rfloor>) - 10 powr real_of_rat y\<bar> < 10 powr real_of_rat y"
proof -
  have "rat_of_int \<lfloor>y\<rfloor> \<le> y" by simp
  then have "real_of_rat (rat_of_int \<lfloor>y\<rfloor>) \<le> real_of_rat y" by (simp only: of_rat_less_eq)
  then have "real_of_int \<lfloor>y\<rfloor> \<le> real_of_rat y" by simp
  then have "(10::real) powr (of_int \<lfloor>y\<rfloor>) \<le> 10 powr real_of_rat y" by (intro powr_mono) simp_all
  moreover have "(0::real) < 10 powr (of_int \<lfloor>y\<rfloor>)" by simp
  ultimately show ?thesis unfolding real_of_rat_powi by linarith
qed

section \<open>The comparator and the plot\<close>

lemma set_select:
  "set (select d w) = {d ! j | j. j < length d \<and> j < length w \<and> w ! j}"
proof -
  have "set (select d w) = fst ` {p \<in> set (zip d w). snd p}"
    by (simp add: select_def)
  also have "\<dots> = {d ! j | j. j < length d \<and> j < length w \<and> w ! j}"
    by (auto simp: set_zip image_iff) force
  finally show ?thesis .
qed

lemma select_subset: "set (select d w) \<subseteq> set d"
  by (auto simp: set_select)

lemma scatter_snd: "(x, y) \<in> set (scatter xs ys m) \<Longrightarrow> y \<in> set ys"
  unfolding scatter_def using select_subset[of ys m] by (auto dest: set_zip_rightD)

lemma np_min_Inr: "np_min xs = Inr lo \<longleftrightarrow> xs \<noteq> [] \<and> lo = Min (set xs)"
  by (cases xs) (auto simp: np_min_def Min.set_eq_fold[symmetric] simp del: set_simps)

lemma np_max_Inr: "np_max xs = Inr hi \<longleftrightarrow> xs \<noteq> [] \<and> hi = Max (set xs)"
  by (cases xs) (auto simp: np_max_def Max.set_eq_fold[symmetric] simp del: set_simps)

lemma min_max_Inr:
  "min_max d w = Inr p \<longleftrightarrow>
     select d w \<noteq> [] \<and> p = (Min (set (select d w)), Max (set (select d w)))"
proof (cases "select d w")
  case Nil
  then show ?thesis by (simp add: min_max_def np_min_def)
next
  case (Cons x r)
  have a: "np_min (select d w) = Inr (Min (set (select d w)))"
    by (simp add: np_min_Inr Cons)
  have b: "np_max (select d w) = Inr (Max (set (select d w)))"
    by (simp add: np_max_Inr Cons)
  show ?thesis unfolding min_max_def a b using Cons by auto
qed

lemma min_max_empty: "min_max d w = Inl ValueError \<longleftrightarrow> select d w = []"
proof (cases "select d w")
  case Nil
  then show ?thesis by (simp add: min_max_def np_min_def)
next
  case (Cons x r)
  then show ?thesis by (simp add: min_max_def np_min_def np_max_def)
qed

lemma min_max_errors: "min_max d w = Inl e \<Longrightarrow> e = ValueError"
  by (auto simp: min_max_def np_min_def np_max_def split: sum.splits list.splits)

lemma worse_nth:
  assumes "k < length es" and "j < length eo" and "j < length (es ! k)"
  shows "worse eo es ! k ! j \<longleftrightarrow> es ! k ! j < eo ! j"
  using assms by (simp add: worse_def)

lemma better_nth:
  assumes "k < length es" and "j < length eo" and "j < length (es ! k)"
  shows "better eo es ! k ! j \<longleftrightarrow> eo ! j < es ! k ! j"
  using assms by (simp add: better_def)

lemma similar_nth:
  assumes "k < length es" and "j < length eo" and "j < length (es ! k)"
  shows "similar eo es ! k ! j \<longleftrightarrow> eo ! j = es ! k ! j"
  using assms by (simp add: similar_def)

lemma length_worse_row:
  "k < length es \<Longrightarrow> length (worse eo es ! k) = min (length eo) (length (es ! k))"
  by (simp add: worse_def)

lemma difference_row:
  assumes "difference ctx eo es = Inr dss" and "k < length es"
  shows "traverse (\<lambda>(a, b). abs_diff ctx a b) (zip eo (es ! k)) = Inr (dss ! k)"
  using traverse_Inr_nth[OF assms(1)[unfolded difference_def] assms(2)] .

lemma difference_length:
  assumes "difference ctx eo es = Inr dss"
  shows "length dss = length es"
  using traverse_Inr_length[OF assms[unfolded difference_def]] .

lemma abs_diff_int:
  assumes "a - b = of_int m" and "\<bar>m\<bar> < 2 ^ 53" and "53 \<le> prec ctx"
  shows "abs_diff ctx a b = Inr (of_int \<bar>m\<bar>)"
proof -
  have "(2::int) ^ 53 \<le> 2 ^ prec ctx" using assms(3) by (intro power_increasing) simp_all
  then have "\<bar>m\<bar> < 2 ^ prec ctx" using assms(2) by linarith
  then have sub: "mp_sub ctx a b = of_int m"
    by (simp add: mp_sub_def assms(1) round_bits_of_int)
  have "\<bar>(of_int m :: rat)\<bar> \<le> 2 powi 53"
  proof -
    have "(of_int \<bar>m\<bar> :: rat) \<le> of_int (2 ^ 53)" using assms(2) by (simp only: of_int_le_iff)
    then show ?thesis by simp
  qed
  then have "f64 (of_int m) = Inr (round_f64 (of_int m))" by (rule f64_small) simp_all
  then have "mp_to_float (of_int m) = Inr (of_int m)"
    using assms(2) by (simp add: mp_to_float_def round_f64_of_int)
  then show ?thesis by (simp add: abs_diff_def sub)
qed

lemma difference_example:
  "difference \<lparr>prec = 3325\<rparr> [1, 4] [[2, 2]] = Inr [[1, 2]]"
proof -
  have a: "abs_diff \<lparr>prec = 3325\<rparr> 1 2 = Inr 1"
    using abs_diff_int[of 1 2 "- 1" "\<lparr>prec = 3325\<rparr>"] by simp
  have b: "abs_diff \<lparr>prec = 3325\<rparr> 4 2 = Inr 2"
    using abs_diff_int[of 4 2 2 "\<lparr>prec = 3325\<rparr>"] by simp
  show ?thesis by (simp add: difference_def a b)
qed

lemma report_example: "report \<lparr>prec = 3325\<rparr> [1, 4] [[2, 2]] = Inr [(2, 2)]"
  by (simp add: report_def difference_example worse_def min_max_pairs_def min_max_def
      select_def np_min_def np_max_def)

text \<open>
  The aggregation of a row is defined exactly when the row has a sample whose
  direct-formula error is the larger one; a row without one stops the report with a
  ValueError.
\<close>

lemma report_needs_series_better:
  assumes "difference ctx eo es = Inr dss" and "k < length es"
    and "\<forall>j. j < length eo \<and> j < length (es ! k) \<longrightarrow> \<not> es ! k ! j < eo ! j"
  shows "report ctx eo es = Inl ValueError"
proof -
  have lw: "length (worse eo es ! k) = min (length eo) (length (es ! k))"
    by (rule length_worse_row[OF assms(2)])
  have "\<not> (j < length (dss ! k) \<and> j < length (worse eo es ! k) \<and> worse eo es ! k ! j)" for j
    using assms(3) worse_nth[OF assms(2), of j eo] lw by auto
  then have "set (select (dss ! k) (worse eo es ! k)) = {}"
    unfolding set_select by blast
  then have mm: "min_max (dss ! k) (worse eo es ! k) = Inl ValueError"
    by (simp add: min_max_empty)
  have kz: "k < length (zip dss (worse eo es))"
    using assms(2) difference_length[OF assms(1)] by (simp add: worse_def)
  have mem: "zip dss (worse eo es) ! k \<in> set (zip dss (worse eo es))"
    using kz by (rule nth_mem)
  have fail: "(\<lambda>(d, w). min_max d w) (zip dss (worse eo es) ! k) = Inl ValueError"
    using kz mm by simp
  have "\<exists>e'. min_max_pairs dss (worse eo es) = Inl e'"
    unfolding min_max_pairs_def using mem fail by (rule traverse_fails)
  then obtain e' where e': "min_max_pairs dss (worse eo es) = Inl e'" by blast
  then obtain p where pe: "(\<lambda>(d, w). min_max d w) p = Inl e'"
    unfolding min_max_pairs_def by (blast dest: traverse_Inl)
  obtain d w where "p = (d, w)" by (cases p)
  then have "min_max d w = Inl e'" using pe by simp
  then have "e' = ValueError" by (rule min_max_errors)
  then show ?thesis using e' by (simp add: report_def assms(1))
qed

lemma select_worse_row:
  assumes "difference ctx eo es = Inr dss" and "k < length es"
  shows "length (dss ! k) = min (length eo) (length (es ! k))"
    and "set (select (dss ! k) (worse eo es ! k))
           = {dss ! k ! j | j. j < length (dss ! k) \<and> es ! k ! j < eo ! j}"
proof -
  define ds where "ds = dss ! k"
  define w where "w = worse eo es ! k"
  have row: "traverse (\<lambda>(a, b). abs_diff ctx a b) (zip eo (es ! k)) = Inr ds"
    unfolding ds_def by (rule difference_row[OF assms])
  show lds: "length (dss ! k) = min (length eo) (length (es ! k))"
    using traverse_Inr_length[OF row] by (simp add: ds_def)
  have lw: "length w = min (length eo) (length (es ! k))"
    unfolding w_def by (rule length_worse_row[OF assms(2)])
  have wj: "w ! j \<longleftrightarrow> es ! k ! j < eo ! j" if "j < length ds" for j
    unfolding w_def using that lds by (intro worse_nth[OF assms(2)]) (simp_all add: ds_def)
  have "set (select ds w) = {ds ! j | j. j < length ds \<and> j < length w \<and> w ! j}"
    by (rule set_select)
  also have "\<dots> = {ds ! j | j. j < length ds \<and> es ! k ! j < eo ! j}"
  proof (rule Collect_cong)
    fix v
    show "(\<exists>j. v = ds ! j \<and> j < length ds \<and> j < length w \<and> w ! j)
        = (\<exists>j. v = ds ! j \<and> j < length ds \<and> es ! k ! j < eo ! j)"
      using wj lds lw by (auto simp: ds_def)
  qed
  finally show "set (select (dss ! k) (worse eo es ! k))
           = {dss ! k ! j | j. j < length (dss ! k) \<and> es ! k ! j < eo ! j}"
    by (simp only: ds_def w_def)
qed

text \<open>
  The report is produced exactly when the differences are finite doubles and every series
  order has at least one sample whose direct-formula error is strictly the greater.
\<close>

lemma report_defined_iff:
  "(\<exists>pairs. report ctx eo es = Inr pairs) \<longleftrightarrow>
     (\<exists>dss. difference ctx eo es = Inr dss) \<and>
     (\<forall>k<length es. \<exists>j. j < length eo \<and> j < length (es ! k) \<and> es ! k ! j < eo ! j)"
proof
  assume "\<exists>pairs. report ctx eo es = Inr pairs"
  then obtain pairs where rep: "report ctx eo es = Inr pairs" by blast
  then obtain dss where dss: "difference ctx eo es = Inr dss"
    by (auto simp: report_def split: sum.splits)
  have "\<exists>j. j < length eo \<and> j < length (es ! k) \<and> es ! k ! j < eo ! j" if "k < length es" for k
  proof (rule ccontr)
    assume "\<not> (\<exists>j. j < length eo \<and> j < length (es ! k) \<and> es ! k ! j < eo ! j)"
    then have "\<forall>j. j < length eo \<and> j < length (es ! k) \<longrightarrow> \<not> es ! k ! j < eo ! j" by blast
    then have "report ctx eo es = Inl ValueError"
      by (rule report_needs_series_better[OF dss that])
    then show False using rep by simp
  qed
  then show "(\<exists>dss. difference ctx eo es = Inr dss) \<and>
     (\<forall>k<length es. \<exists>j. j < length eo \<and> j < length (es ! k) \<and> es ! k ! j < eo ! j)"
    using dss by blast
next
  assume a: "(\<exists>dss. difference ctx eo es = Inr dss) \<and>
     (\<forall>k<length es. \<exists>j. j < length eo \<and> j < length (es ! k) \<and> es ! k ! j < eo ! j)"
  then obtain dss where dss: "difference ctx eo es = Inr dss" by blast
  have ld: "length dss = length es" by (rule difference_length[OF dss])
  have "\<exists>p. (\<lambda>(d, w). min_max d w) dw = Inr p"
    if mem: "dw \<in> set (zip dss (worse eo es))" for dw
  proof -
    have "length (worse eo es) = length es" by (simp add: worse_def)
    then obtain k where k: "k < length es" "dw = (dss ! k, worse eo es ! k)"
      using mem ld by (auto simp: set_zip)
    obtain j where j: "j < length eo" "j < length (es ! k)" "es ! k ! j < eo ! j"
      using a k(1) by blast
    have "j < length (dss ! k)" using j select_worse_row(1)[OF dss k(1)] by simp
    then have "dss ! k ! j \<in> set (select (dss ! k) (worse eo es ! k))"
      unfolding select_worse_row(2)[OF dss k(1)] using j(3) by blast
    then have "select (dss ! k) (worse eo es ! k) \<noteq> []" by auto
    then show ?thesis by (simp add: k(2) min_max_Inr)
  qed
  then have "\<exists>pairs. min_max_pairs dss (worse eo es) = Inr pairs"
    unfolding min_max_pairs_def by (rule traverse_total)
  then show "\<exists>pairs. report ctx eo es = Inr pairs" by (simp add: report_def dss)
qed

section \<open>Rounding between dyadic bounds\<close>

lemma scaled_dyadic:
  assumes "e \<le> s"
  shows "of_int (m * 2 ^ nat (s - e)) * 2 powi e = (of_int m :: rat) * 2 powi s"
proof -
  have "(of_int (2 ^ nat (s - e)) :: rat) = 2 powi (s - e)" using assms by (simp add: power_int_def)
  then have "(of_int (m * 2 ^ nat (s - e)) :: rat) * 2 powi e = of_int m * (2 powi (s - e) * 2 powi e)"
    by (simp add: mult.assoc)
  also have "(2::rat) powi (s - e) * 2 powi e = 2 powi s" by (simp flip: power_int_add)
  finally show ?thesis .
qed

lemma round_at_le_dyadic:
  assumes "q \<le> of_int m * 2 powi s" and "e \<le> s"
  shows "round_at e q \<le> of_int m * 2 powi s"
proof -
  note eq = scaled_dyadic[OF assms(2), of m]
  have "q \<le> of_int (m * 2 ^ nat (s - e)) * 2 powi e" using assms(1) by (simp only: eq)
  then have "round_at e q \<le> of_int (m * 2 ^ nat (s - e)) * 2 powi e" by (rule round_at_le)
  then show ?thesis by (simp only: eq)
qed

lemma round_at_ge_dyadic:
  assumes "of_int m * 2 powi s \<le> q" and "e \<le> s"
  shows "of_int m * 2 powi s \<le> round_at e q"
proof -
  note eq = scaled_dyadic[OF assms(2), of m]
  have "of_int (m * 2 ^ nat (s - e)) * 2 powi e \<le> q" using assms(1) by (simp only: eq)
  then have "of_int (m * 2 ^ nat (s - e)) * 2 powi e \<le> round_at e q" by (rule round_at_ge)
  then show ?thesis by (simp only: eq)
qed

text \<open>
  Rounding never crosses a number of the target format: bounds that are multiples of
  \<open>2^s\<close> survive the rounding of anything below \<open>2^(s + precision)\<close>.
\<close>

lemma round_f64_dyadic:
  assumes "\<bar>q\<bar> < 2 powi (s + 53)" and "- 1074 \<le> s"
  shows "q \<le> of_int m * 2 powi s \<Longrightarrow> round_f64 q \<le> of_int m * 2 powi s"
    and "of_int m * 2 powi s \<le> q \<Longrightarrow> of_int m * 2 powi s \<le> round_f64 q"
proof -
  have e: "max (ilog2 q - 52) (- 1074) \<le> s" if "q \<noteq> 0"
  proof -
    have "ilog2 q < s + 53" using that assms(1) by (rule abs_lt_pow2_ilog2)
    then show ?thesis using assms(2) by simp
  qed
  show "round_f64 q \<le> of_int m * 2 powi s" if "q \<le> of_int m * 2 powi s"
  proof (cases "q = 0")
    case True
    then show ?thesis using that by simp
  next
    case False
    then show ?thesis using round_at_le_dyadic[OF that e[OF False]] by (simp add: round_f64_def)
  qed
  show "of_int m * 2 powi s \<le> round_f64 q" if "of_int m * 2 powi s \<le> q"
  proof (cases "q = 0")
    case True
    then show ?thesis using that by simp
  next
    case False
    then show ?thesis using round_at_ge_dyadic[OF that e[OF False]] by (simp add: round_f64_def)
  qed
qed

lemma round_bits_dyadic:
  assumes "\<bar>q\<bar> < 2 powi (s + int p)"
  shows "q \<le> of_int m * 2 powi s \<Longrightarrow> round_bits p q \<le> of_int m * 2 powi s"
    and "of_int m * 2 powi s \<le> q \<Longrightarrow> of_int m * 2 powi s \<le> round_bits p q"
proof -
  have e: "ilog2 q - int p + 1 \<le> s" if "q \<noteq> 0"
  proof -
    have "ilog2 q < s + int p" using that assms(1) by (rule abs_lt_pow2_ilog2)
    then show ?thesis by simp
  qed
  show "round_bits p q \<le> of_int m * 2 powi s" if "q \<le> of_int m * 2 powi s"
  proof (cases "q = 0")
    case True
    then show ?thesis using that by simp
  next
    case False
    then show ?thesis using round_at_le_dyadic[OF that e[OF False]] by (simp add: round_bits_def)
  qed
  show "of_int m * 2 powi s \<le> round_bits p q" if "of_int m * 2 powi s \<le> q"
  proof (cases "q = 0")
    case True
    then show ?thesis using that by simp
  next
    case False
    then show ?thesis using round_at_ge_dyadic[OF that e[OF False]] by (simp add: round_bits_def)
  qed
qed

text \<open>The same with bounds in 4096ths, for numbers of magnitude at most 2.\<close>

lemma f64_between:
  assumes "of_int lo / 4096 \<le> q" and "q \<le> of_int hi / 4096" and "\<bar>q\<bar> \<le> 2"
  shows "\<exists>r. f64 q = Inr r \<and> of_int lo / 4096 \<le> r \<and> r \<le> of_int hi / 4096 \<and> \<bar>r\<bar> \<le> 2"
proof -
  have p12: "(2::rat) powi (- 12) = 1 / 4096" by (simp add: power_int_minus_divide)
  have "(2::rat) \<le> 2 powi 1" by simp
  then have q1: "\<bar>q\<bar> \<le> 2 powi 1" using assms(3) by simp
  have "(2::rat) powi 1 < 2 powi (- 12 + 53)" by (rule powi2_strict_mono) simp
  then have small: "\<bar>q\<bar> < 2 powi (- 12 + 53)" using q1 by simp
  have f: "f64 q = Inr (round_f64 q)" using q1 by (rule f64_small) simp_all
  have "of_int lo * 2 powi (- 12) \<le> round_f64 q"
    using assms(1) by (intro round_f64_dyadic(2)[OF small]) (simp_all add: p12)
  moreover have "round_f64 q \<le> of_int hi * 2 powi (- 12)"
    using assms(2) by (intro round_f64_dyadic(1)[OF small]) (simp_all add: p12)
  moreover have "\<bar>round_f64 q\<bar> \<le> 2 powi 1" using q1 by (intro round_f64_abs_le_pow2) simp_all
  ultimately show ?thesis using f by (simp add: p12)
qed

lemma round_bits_between:
  assumes "of_int lo / 4096 \<le> q" and "q \<le> of_int hi / 4096" and "\<bar>q\<bar> \<le> 2" and "14 \<le> p"
  shows "of_int lo / 4096 \<le> round_bits p q \<and> round_bits p q \<le> of_int hi / 4096"
proof -
  have p12: "(2::rat) powi (- 12) = 1 / 4096" by (simp add: power_int_minus_divide)
  have "(2::rat) \<le> 2 powi 1" by simp
  then have q1: "\<bar>q\<bar> \<le> 2 powi 1" using assms(3) by simp
  have "(2::rat) powi 1 < 2 powi (- 12 + int p)" using assms(4) by (intro powi2_strict_mono) simp
  then have small: "\<bar>q\<bar> < 2 powi (- 12 + int p)" using q1 by simp
  have "of_int lo * 2 powi (- 12) \<le> round_bits p q"
    using assms(1) by (intro round_bits_dyadic(2)[OF small]) (simp_all add: p12)
  moreover have "round_bits p q \<le> of_int hi * 2 powi (- 12)"
    using assms(2) by (intro round_bits_dyadic(1)[OF small]) (simp_all add: p12)
  ultimately show ?thesis by (simp add: p12)
qed

lemma round_half_even_near:
  assumes "\<bar>q - of_int n\<bar> < 1 / 2"
  shows "round_half_even q = n"
proof -
  have "\<bar>of_int (round_half_even q) - q\<bar> \<le> 1 / 2" by (rule round_half_even_err)
  then have "\<bar>(of_int (round_half_even q) :: rat) - of_int n\<bar> < 1" using assms by linarith
  then have "\<bar>(of_int (round_half_even q - n) :: rat)\<bar> < of_int 1" by simp
  then have "\<bar>round_half_even q - n\<bar> < 1" by (simp only: of_int_abs[symmetric] of_int_less_iff)
  then show ?thesis by simp
qed

lemma dps_1000: "dps_to_prec 1000 = 3325"
proof -
  have "round_half_even (of_nat (1000 + 1) * (33219280948873626 / 10 ^ 16)) = 3325"
    by (rule round_half_even_near) simp
  then show ?thesis by (simp add: dps_to_prec_def)
qed

section \<open>The order-1 series at the last sample\<close>

text \<open>
  The last sample is \<open>x = 10^0 = 1\<close>. There the direct formula returns \<open>sin 1 / 1\<close>, about
  \<open>0.8415\<close>, and the series of order 1 returns \<open>1 - 1/6\<close>, about \<open>0.8333\<close>: the truncation
  error of the series, about \<open>8 * 10^-3\<close>, dwarfs every rounding error.
\<close>

lemma linspace_last:
  assumes "linspace start stop num = Inr ys" and "1 < num"
  shows "ys \<noteq> [] \<and> last ys = stop"
  using assms by (auto simp: linspace_def split: sum.splits if_splits)

lemma x_range_last:
  assumes "x_range L = Inr xs" and "np_power L 10 0 = Inr 1"
  shows "length xs = 50 \<and> xs ! 49 = 1"
proof -
  obtain ys where ys: "linspace (- 10) 0 50 = Inr ys" "length ys = 50"
    using linspace_samples by blast
  have tr: "traverse (np_power L 10) ys = Inr xs"
    using assms(1) by (simp add: x_range_def logspace_def ys(1))
  have len: "length xs = 50" using traverse_Inr_length[OF tr] ys(2) by simp
  have "last ys = 0" using linspace_last[OF ys(1)] by simp
  then have "ys ! 49 = 0" using ys(2) linspace_last[OF ys(1)] by (simp add: last_conv_nth)
  moreover have "np_power L 10 (ys ! 49) = Inr (xs ! 49)"
    using traverse_Inr_nth[OF tr, of 49] ys(2) by simp
  ultimately have "xs ! 49 = 1" using assms(2) by simp
  then show ?thesis using len by simp
qed

lemma term_at_1_bounds: "- 683 / 4096 \<le> term_at 1" "term_at 1 \<le> - 682 / 4096"
proof -
  have t: "term_at 1 = round_f64 (- 1 / 6)"
    by (simp add: term_at_def numeral_3_eq_3)
  have "\<exists>r. f64 (- 1 / 6) = Inr r \<and> of_int (- 683) / 4096 \<le> r \<and> r \<le> of_int (- 682) / 4096 \<and> \<bar>r\<bar> \<le> 2"
    by (rule f64_between) simp_all
  then obtain r where r: "f64 (- 1 / 6) = Inr r" "of_int (- 683) / 4096 \<le> r" "r \<le> of_int (- 682) / 4096"
    by blast
  have "r = round_f64 (- 1 / 6)" using r(1) by (simp add: f64_def Let_def split: if_splits)
  then show "- 683 / 4096 \<le> term_at 1" "term_at 1 \<le> - 682 / 4096" using r(2,3) t by simp_all
qed

lemma series_N_first:
  assumes "series N = Inr ps"
  shows "coef (ps ! 0) = [term_at 1, 0, 1]"
proof -
  have "ps ! (1 - 1) = poly1d (trunc N 1)"
    by (rule series_poly[OF assms]) (simp_all add: N_def)
  moreover have "trunc N 1 = [term_at 1, 0, 1]"
    by (simp add: trunc_def getslice_down_def coef_list_def N_def take_map upt_rec)
  moreover have "term_at 1 \<noteq> 0" using term_at_1_bounds(2) by auto
  ultimately show ?thesis by (simp add: poly1d_def)
qed

lemma f64_Inr: "f64 q = Inr r \<Longrightarrow> r = round_f64 q"
  by (simp add: f64_def Let_def split: if_splits)

lemma horner_order1:
  assumes "- 683 / 4096 \<le> c" and "c \<le> - 682 / 4096"
  shows "\<exists>b. horner [c, 0, 1] 1 0 = Inr b \<and> 3413 / 4096 \<le> b \<and> b \<le> 3414 / 4096"
proof -
  have z: "f64 0 = Inr 0" using f64_of_int[of 0] by simp
  obtain c1 where c1: "f64 c = Inr c1" "of_int (- 683) / 4096 \<le> c1" "c1 \<le> of_int (- 682) / 4096"
    using f64_between[of "- 683" c "- 682"] assms by auto
  obtain c2 where c2: "f64 c1 = Inr c2" "of_int (- 683) / 4096 \<le> c2" "c2 \<le> of_int (- 682) / 4096"
    using f64_between[of "- 683" c1 "- 682"] c1(2,3) by auto
  obtain c3 where c3: "f64 c2 = Inr c3" "of_int (- 683) / 4096 \<le> c3" "c3 \<le> of_int (- 682) / 4096"
    using f64_between[of "- 683" c2 "- 682"] c2(2,3) by auto
  obtain c4 where c4: "f64 c3 = Inr c4" "of_int (- 683) / 4096 \<le> c4" "c4 \<le> of_int (- 682) / 4096"
    using f64_between[of "- 683" c3 "- 682"] c3(2,3) by auto
  obtain b where b: "f64 (c4 + 1) = Inr b" "of_int 3413 / 4096 \<le> b" "b \<le> of_int 3414 / 4096"
    using f64_between[of 3413 "c4 + 1" 3414] c4(2,3) by auto
  have "horner [c, 0, 1] 1 0 = Inr b"
    by (simp add: z np_add_def np_multiply_def c1(1) c2(1) c3(1) c4(1) b(1))
  then show ?thesis using b(2,3) by auto
qed

text \<open>
  The comparison at one sample, from bounds in 4096ths: a direct result \<open>a\<close> and a reference
  \<open>r\<close> near \<open>sin 1\<close>, and a series result \<open>b\<close> near \<open>1 - 1/6\<close>.
\<close>

lemma gap_core:
  assumes p: "14 \<le> prec ctx"
    and a: "3442 / 4096 \<le> a" "a \<le> 3451 / 4096"
    and r: "3442 / 4096 \<le> r" "r \<le> 3451 / 4096"
    and b: "3413 / 4096 \<le> b" "b \<le> 3414 / 4096"
  shows "mp_abs ctx (mp_sub ctx a r) < mp_abs ctx (mp_sub ctx b r) \<and>
         (\<exists>d. abs_diff ctx (mp_abs ctx (mp_sub ctx a r)) (mp_abs ctx (mp_sub ctx b r)) = Inr d \<and>
              19 / 4096 \<le> d)"
proof -
  define sa where "sa = mp_sub ctx a r"
  define sb where "sb = mp_sub ctx b r"
  define eo where "eo = mp_abs ctx sa"
  define es where "es = mp_abs ctx sb"
  have sa: "of_int (- 9) / 4096 \<le> sa \<and> sa \<le> of_int 9 / 4096"
    unfolding sa_def mp_sub_def using a r p by (intro round_bits_between) (simp_all add: abs_le_iff)
  have sb: "of_int (- 38) / 4096 \<le> sb \<and> sb \<le> of_int (- 28) / 4096"
    unfolding sb_def mp_sub_def using b r p by (intro round_bits_between) (simp_all add: abs_le_iff)
  have sa1: "- (9 / 4096) \<le> sa" "sa \<le> 9 / 4096" using sa by simp_all
  have sb1: "- (38 / 4096) \<le> sb" "sb \<le> - (28 / 4096)" using sb by simp_all
  have sa2: "0 \<le> \<bar>sa\<bar>" "\<bar>sa\<bar> \<le> 9 / 4096" "\<bar>\<bar>sa\<bar>\<bar> \<le> 2" using sa1 by linarith+
  have sb2: "28 / 4096 \<le> \<bar>sb\<bar>" "\<bar>sb\<bar> \<le> 38 / 4096" "\<bar>\<bar>sb\<bar>\<bar> \<le> 2" using sb1 by linarith+
  have asa: "of_int 0 / 4096 \<le> \<bar>sa\<bar>" "\<bar>sa\<bar> \<le> of_int 9 / 4096" "\<bar>\<bar>sa\<bar>\<bar> \<le> 2"
    using sa2 by simp_all
  have asb: "of_int 28 / 4096 \<le> \<bar>sb\<bar>" "\<bar>sb\<bar> \<le> of_int 38 / 4096" "\<bar>\<bar>sb\<bar>\<bar> \<le> 2"
    using sb2 by simp_all
  have eo: "of_int 0 / 4096 \<le> eo \<and> eo \<le> of_int 9 / 4096"
    unfolding eo_def mp_abs_def using asa p by (rule round_bits_between)
  have es: "of_int 28 / 4096 \<le> es \<and> es \<le> of_int 38 / 4096"
    unfolding es_def mp_abs_def using asb p by (rule round_bits_between)
  have lt: "eo < es" using eo es by simp
  have sd: "of_int (- 38) / 4096 \<le> mp_sub ctx eo es \<and> mp_sub ctx eo es \<le> of_int (- 19) / 4096"
    unfolding mp_sub_def using eo es p by (intro round_bits_between) (simp_all add: abs_le_iff)
  obtain f where f: "f64 (mp_sub ctx eo es) = Inr f" "of_int (- 38) / 4096 \<le> f"
      "f \<le> of_int (- 19) / 4096"
    using f64_between[of "- 38" "mp_sub ctx eo es" "- 19"] sd by (auto simp: abs_le_iff)
  have "abs_diff ctx eo es = Inr \<bar>f\<bar>" by (simp add: abs_diff_def mp_to_float_def f(1))
  moreover have "19 / 4096 \<le> \<bar>f\<bar>" using f(3) by simp
  ultimately show ?thesis using lt unfolding eo_def es_def sa_def sb_def by blast
qed

lemma order1_last_sample:
  assumes xr: "x_range L = Inr xs" and se: "series N = Inr ps"
    and rf: "ref L (set_dps 1000 ctx0) xs = Inr rf" and ro: "r_orig L xs = Inr ro"
    and rs: "r_series ps xs = Inr rss"
    and pw: "np_power L 10 0 = Inr 1"
    and ns: "\<bar>np_sin L 1 - 8415 / 10000\<bar> \<le> 1 / 1000"
    and ms: "\<bar>mp_sin L 3325 1 - 8415 / 10000\<bar> \<le> 1 / 1000"
  defines "ctx \<equiv> set_dps 1000 ctx0"
  defines "eo \<equiv> err_orig ctx ro rf"
  defines "es \<equiv> err_series ctx rss rf"
  shows "xs ! 49 = 1 \<and> better eo es ! 0 ! 49 \<and>
         (\<exists>d. abs_diff ctx (eo ! 49) (es ! 0 ! 49) = Inr d \<and> 19 / 4096 \<le> d \<and>
              (\<forall>dss. difference ctx eo es = Inr dss \<longrightarrow> dss ! 0 ! 49 = d))"
proof -
  have xl: "length xs = 50" "xs ! 49 = 1" using x_range_last[OF xr pw] by simp_all
  have cx: "ctx = \<lparr>prec = 3325\<rparr>" by (simp add: ctx_def set_dps_eq dps_1000)
  have pr: "prec ctx = 3325" by (simp add: cx)
  have lrf: "length rf = 50" using traverse_Inr_length[OF rf[unfolded ref_def]] xl(1) by simp
  have lro: "length ro = 50" using traverse_Inr_length[OF ro[unfolded r_orig_def]] xl(1) by simp
  have lps: "length ps = 7" using series_length[OF se] by (simp add: N_def)
  have lrss: "length rss = 7" using traverse_Inr_length[OF rs[unfolded r_series_def]] lps by simp
  have row0: "polyval (ps ! 0) xs = Inr (rss ! 0)"
    using traverse_Inr_nth[OF rs[unfolded r_series_def], of 0] lps by simp
  have lrow0: "length (rss ! 0) = 50"
    using traverse_Inr_length[OF row0[unfolded polyval_def]] xl(1) by simp
  \<comment> \<open>the reference at x = 1\<close>
  have one: "round_bits 3325 1 = 1" using round_bits_of_int[of 1 3325] by simp
  have "(let x = mpf ctx (xs ! 49) in mp_div ctx (mp_sin L (prec ctx) x) x) = Inr (rf ! 49)"
    using traverse_Inr_nth[OF rf[unfolded ref_def ctx_def[symmetric]], of 49] xl(1) by simp
  then have rfv: "rf ! 49 = round_bits 3325 (mp_sin L 3325 1)"
    by (simp add: xl(2) mpf_def pr one mp_div_def)
  have m1: "3442 / 4096 \<le> mp_sin L 3325 1" "mp_sin L 3325 1 \<le> 3451 / 4096"
      "\<bar>mp_sin L 3325 1\<bar> \<le> 2"
    using ms by linarith+
  have m: "of_int 3442 / 4096 \<le> mp_sin L 3325 1" "mp_sin L 3325 1 \<le> of_int 3451 / 4096"
      "\<bar>mp_sin L 3325 1\<bar> \<le> 2"
    using m1 by simp_all
  have r: "3442 / 4096 \<le> rf ! 49" "rf ! 49 \<le> 3451 / 4096"
    using round_bits_between[OF m, of 3325] by (simp_all add: rfv)
  \<comment> \<open>the direct formula at x = 1\<close>
  have "np_divide (np_sin L (xs ! 49)) (xs ! 49) = Inr (ro ! 49)"
    using traverse_Inr_nth[OF ro[unfolded r_orig_def], of 49] xl(1) by simp
  then have rov: "f64 (np_sin L 1) = Inr (ro ! 49)" by (simp add: xl(2) np_divide_def)
  have n1: "3442 / 4096 \<le> np_sin L 1" "np_sin L 1 \<le> 3451 / 4096"
      "\<bar>np_sin L 1\<bar> \<le> 2"
    using ns by linarith+
  have n: "of_int 3442 / 4096 \<le> np_sin L 1" "np_sin L 1 \<le> of_int 3451 / 4096"
      "\<bar>np_sin L 1\<bar> \<le> 2"
    using n1 by simp_all
  have a: "3442 / 4096 \<le> ro ! 49" "ro ! 49 \<le> 3451 / 4096"
    using f64_between[OF n] by (auto simp: rov)
  \<comment> \<open>the series of order 1 at x = 1\<close>
  have "horner (coef (ps ! 0)) (xs ! 49) 0 = Inr (rss ! 0 ! 49)"
    using traverse_Inr_nth[OF row0[unfolded polyval_def], of 49] xl(1) by simp
  then have "horner [term_at 1, 0, 1] 1 0 = Inr (rss ! 0 ! 49)"
    by (simp only: series_N_first[OF se] xl(2))
  then have b: "3413 / 4096 \<le> rss ! 0 ! 49" "rss ! 0 ! 49 \<le> 3414 / 4096"
    using horner_order1[OF term_at_1_bounds] by auto
  \<comment> \<open>the two errors\<close>
  have eov: "eo ! 49 = mp_abs ctx (mp_sub ctx (ro ! 49) (rf ! 49))"
    by (simp add: eo_def err_orig_def abs_err_def lro lrf)
  have esv: "es ! 0 ! 49 = mp_abs ctx (mp_sub ctx (rss ! 0 ! 49) (rf ! 49))"
    by (simp add: es_def err_series_def abs_err_def lrss lrow0 lrf)
  have leo: "length eo = 50" by (simp add: eo_def err_orig_def abs_err_def lro lrf)
  have les: "length es = 7" by (simp add: es_def err_series_def lrss)
  have les0: "length (es ! 0) = 50"
    by (simp add: es_def err_series_def abs_err_def lrss lrow0 lrf)
  have p14: "14 \<le> prec ctx" by (simp add: pr)
  from gap_core[OF p14 a r b] obtain d where
    lt: "eo ! 49 < es ! 0 ! 49" and
    d: "abs_diff ctx (eo ! 49) (es ! 0 ! 49) = Inr d" "19 / 4096 \<le> d"
    unfolding eov esv by blast
  have bt: "better eo es ! 0 ! 49"
    using lt by (subst better_nth) (simp_all add: leo les les0)
  have "dss ! 0 ! 49 = d" if "difference ctx eo es = Inr dss" for dss
  proof -
    have "traverse (\<lambda>(a, b). abs_diff ctx a b) (zip eo (es ! 0)) = Inr (dss ! 0)"
      using difference_row[OF that, of 0] les by simp
    from traverse_Inr_nth[OF this, of 49]
    have "abs_diff ctx (eo ! 49) (es ! 0 ! 49) = Inr (dss ! 0 ! 49)"
      by (simp add: leo les0)
    then show ?thesis using d(1) by simp
  qed
  then show ?thesis using xl(2) bt d by blast
qed

text \<open>
  The same over a whole run: any run that completes with a library whose sines are within
  \<open>1/1000\<close> of \<open>0.8415\<close> at 1, and for which \<open>10^0 = 1\<close>, has a "direct better" sample whose
  error difference is far above \<open>2^-53\<close>.
\<close>

lemma completed_run_gap:
  assumes "run L ctx0 = Inr (res, ctx)"
    and "np_power L 10 0 = Inr 1"
    and "\<bar>np_sin L 1 - 8415 / 10000\<bar> \<le> 1 / 1000"
    and "\<bar>mp_sin L 3325 1 - 8415 / 10000\<bar> \<le> 1 / 1000"
  shows "res_better res ! 0 ! 49 \<and>
         (\<exists>eo es dss. res_better res = better eo es \<and> difference ctx eo es = Inr dss \<and>
            19 / 4096 \<le> dss ! 0 ! 49)"
proof -
  obtain xs where xr: "x_range L = Inr xs"
    using assms(1) by (cases "x_range L") (simp_all add: run_def)
  obtain ps where se: "series N = Inr ps" by (simp add: series_eq)
  obtain rf where rf: "ref L (set_dps 1000 ctx0) xs = Inr rf"
    using assms(1) xr se by (cases "ref L (set_dps 1000 ctx0) xs") (simp_all add: run_def Let_def)
  obtain ro where ro: "r_orig L xs = Inr ro"
    using assms(1) xr se rf by (cases "r_orig L xs") (simp_all add: run_def Let_def)
  obtain rss where rs: "r_series ps xs = Inr rss"
    using assms(1) xr se rf ro by (cases "r_series ps xs") (simp_all add: run_def Let_def)
  note st = xr se rf ro rs
  have cmp: "compare (set_dps 1000 ctx0) xs ps rf ro rss = Inr res" and cx: "ctx = set_dps 1000 ctx0"
    using assms(1) st
    by (cases "compare (set_dps 1000 ctx0) xs ps rf ro rss"; simp add: run_def Let_def)+
  define eo where "eo = err_orig ctx ro rf"
  define es where "es = err_series ctx rss rf"
  obtain pairs where rp: "report ctx eo es = Inr pairs"
    using cmp unfolding eo_def es_def cx
    by (cases "report (set_dps 1000 ctx0) (err_orig (set_dps 1000 ctx0) ro rf)
                 (err_series (set_dps 1000 ctx0) rss rf)") (simp_all add: compare_def Let_def)
  have rb: "res_better res = better eo es"
    using cmp rp unfolding eo_def es_def cx by (auto simp: compare_def Let_def)
  obtain dss where dss: "difference ctx eo es = Inr dss"
    using rp by (cases "difference ctx eo es") (simp_all add: report_def)
  from order1_last_sample[OF st assms(2-4)] obtain d where
    b: "better eo es ! 0 ! 49" and d: "19 / 4096 \<le> d"
      "\<forall>dss. difference ctx eo es = Inr dss \<longrightarrow> dss ! 0 ! 49 = d"
    unfolding eo_def es_def cx by blast
  have "19 / 4096 \<le> dss ! 0 ! 49" using d dss by simp
  then show ?thesis using b rb dss by auto
qed

section \<open>Runs with the stand-in library\<close>

lemma demo_power:
  assumes "- 10 \<le> y" and "y \<le> 0"
  shows "\<exists>p. np_power demo_lib 10 y = Inr p \<and> 2 powi (- 34) \<le> p \<and> p \<le> 1"
proof -
  define k where "k = \<lfloor>y\<rfloor>"
  have k: "- 10 \<le> k" "k \<le> 0" using assms by (simp_all add: k_def le_floor_iff floor_le_iff)
  define q :: rat where "q = 10 powi k"
  have qhi: "q \<le> 10 powi 0" unfolding q_def using k(2) by (intro power_int_increasing) simp_all
  have qlo: "10 powi (- 10) \<le> q" unfolding q_def using k(1) by (intro power_int_increasing) simp_all
  have q1: "q \<le> 1" using qhi by simp
  have "(2::rat) powi (- 34) \<le> 10 powi (- 10)" by (simp add: power_int_minus_divide)
  then have q2: "of_int 1 * 2 powi (- 34) \<le> q" using qlo by simp
  have q0: "0 < q" using q2 powi2_pos[of "- 34"] by simp
  have aq: "\<bar>q\<bar> \<le> 2 powi 0" using q0 q1 by simp
  have f: "f64 q = Inr (round_f64 q)" using aq by (rule f64_small) simp_all
  have "\<bar>round_f64 q\<bar> \<le> 2 powi 0" using aq by (intro round_f64_abs_le_pow2) simp_all
  then have r1: "round_f64 q \<le> 1" by simp
  have "(2::rat) powi 0 < 2 powi (- 34 + 53)" by (rule powi2_strict_mono) simp
  then have "\<bar>q\<bar> < 2 powi (- 34 + 53)" using aq by simp
  then have "of_int 1 * 2 powi (- 34) \<le> round_f64 q"
    using q2 by (intro round_f64_dyadic(2)) simp_all
  then show ?thesis using f r1 by (simp add: demo_lib_def k_def q_def)
qed

lemma demo_power_0: "np_power demo_lib 10 0 = Inr 1"
  using f64_of_int[of 1] by (simp add: demo_lib_def)

lemma x_range_demo:
  "\<exists>xs. x_range demo_lib = Inr xs \<and> length xs = 50 \<and> (\<forall>x\<in>set xs. 2 powi (- 34) \<le> x \<and> x \<le> 1)"
proof -
  obtain ys where ys: "linspace (- 10) 0 50 = Inr ys" "length ys = 50"
      "\<forall>y\<in>set ys. - 10 \<le> y \<and> y \<le> 0"
    using linspace_samples by blast
  have "\<exists>xs. traverse (np_power demo_lib 10) ys = Inr xs \<and> length xs = length ys \<and>
      (\<forall>x\<in>set xs. 2 powi (- 34) \<le> x \<and> x \<le> 1)"
  proof (rule traverse_ex[where f = "np_power demo_lib 10" and P = "\<lambda>p. 2 powi (- 34) \<le> p \<and> p \<le> 1"])
    fix y assume "y \<in> set ys"
    then have "- 10 \<le> y" "y \<le> 0" using ys(3) by simp_all
    then show "\<exists>p. np_power demo_lib 10 y = Inr p \<and> 2 powi (- 34) \<le> p \<and> p \<le> 1"
      by (rule demo_power)
  qed
  then obtain xs where xs: "traverse (np_power demo_lib 10) ys = Inr xs" "length xs = length ys"
      "\<forall>x\<in>set xs. 2 powi (- 34) \<le> x \<and> x \<le> 1"
    by blast
  have "x_range demo_lib = Inr xs" by (simp add: x_range_def logspace_def ys(1) xs(1))
  moreover have "length xs = 50" using xs(2) ys(2) by simp
  ultimately have "x_range demo_lib = Inr xs \<and> length xs = 50 \<and>
      (\<forall>x\<in>set xs. 2 powi (- 34) \<le> x \<and> x \<le> 1)"
    using xs(3) by (intro conjI)
  then show ?thesis by (rule exI)
qed

lemma ref_total:
  assumes "\<forall>x\<in>set xs. x \<noteq> 0" and "1 \<le> prec ctx"
  shows "\<exists>rf. ref L ctx xs = Inr rf"
  unfolding ref_def
proof (rule traverse_total)
  fix z assume "z \<in> set xs"
  then have "z \<noteq> 0" using assms(1) by auto
  then have "mpf ctx z \<noteq> 0" unfolding mpf_def using assms(2) by (rule round_bits_ne0)
  then show "\<exists>r. (let x = mpf ctx z in mp_div ctx (mp_sin L (prec ctx) x) x) = Inr r"
    by (simp add: mp_div_def Let_def)
qed

lemma taylor_sin_bounds:
  assumes "0 < x" and "x \<le> 1"
  shows "x / 2 \<le> taylor_sin x" and "taylor_sin x \<le> x * (121 / 120)"
proof -
  define g where "g = 1 - x ^ 2 / 6 + x ^ 4 / 120 - x ^ 6 / 5040"
  have t: "taylor_sin x = x * g"
    by (simp add: taylor_sin_def g_def algebra_simps power_numeral_reduce)
  have p2: "0 \<le> x ^ 2" "x ^ 2 \<le> 1" using assms by (simp_all add: power_le_one)
  have p4: "0 \<le> x ^ 4" "x ^ 4 \<le> 1" using assms by (simp_all add: power_le_one)
  have p6: "0 \<le> x ^ 6" "x ^ 6 \<le> 1" using assms by (simp_all add: power_le_one)
  have g: "1 / 2 \<le> g" "g \<le> 121 / 120" unfolding g_def using p2 p4 p6 by linarith+
  show "x / 2 \<le> taylor_sin x" unfolding t using g(1) assms(1) by (simp add: field_simps)
  show "taylor_sin x \<le> x * (121 / 120)" unfolding t using g(2) assms(1) by (intro mult_left_mono) simp_all
qed

lemma r_orig_demo:
  assumes "\<forall>x\<in>set xs. 2 powi (- 34) \<le> x \<and> x \<le> 1"
  shows "\<exists>ro. r_orig demo_lib xs = Inr ro"
  unfolding r_orig_def
proof (rule traverse_total)
  fix x assume "x \<in> set xs"
  then have x: "2 powi (- 34) \<le> x" "x \<le> 1" using assms by simp_all
  have x0: "0 < x" using x(1) powi2_pos[of "- 34"] by linarith
  define t where "t = taylor_sin x"
  have tb: "x / 2 \<le> t" "t \<le> x * (121 / 120)" unfolding t_def by (rule taylor_sin_bounds[OF x0 x(2)])+
  have t0: "0 < t" using tb(1) x0 by simp
  have "(2::rat) powi (- 1022) \<le> 2 powi (- 35)" by (rule powi2_mono) simp
  also have "(2::rat) powi (- 35) = 2 powi (- 34) / 2" by (simp add: power_int_minus_divide)
  also have "\<dots> \<le> x / 2" using x(1) by simp
  also have "\<dots> \<le> \<bar>t\<bar>" using tb(1) t0 by simp
  finally have nrm: "2 powi (- 1022) \<le> \<bar>t\<bar>" .
  have "(2::rat) powi (- 53) \<le> 2 powi (- 1)" by (rule powi2_mono) simp
  then have h: "(2::rat) powi (- 53) \<le> 1 / 2" by simp
  have "\<bar>round_f64 t - t\<bar> \<le> 2 powi (- 53) * \<bar>t\<bar>" by (rule round_f64_rel[OF nrm])
  also have "\<dots> \<le> 1 / 2 * \<bar>t\<bar>" using h by (intro mult_right_mono) simp_all
  finally have "\<bar>round_f64 t - t\<bar> \<le> t / 2" using t0 by simp
  then have rb: "0 \<le> round_f64 t" "round_f64 t \<le> t * (3 / 2)" using t0 by linarith+
  have "t * (3 / 2) \<le> x * (121 / 120) * (3 / 2)" using tb(2) by simp
  also have "\<dots> \<le> x * 2" using x0 by simp
  finally have "round_f64 t \<le> x * 2" using rb(2) by linarith
  then have "round_f64 t / x \<le> 2" using x0 by (simp add: field_simps)
  moreover have "0 \<le> round_f64 t / x" using rb(1) x0 by simp
  ultimately have "\<bar>round_f64 t / x\<bar> \<le> 2 powi 1" by simp
  then have "f64 (round_f64 t / x) = Inr (round_f64 (round_f64 t / x))" by (rule f64_small) simp_all
  then show "\<exists>y. np_divide (np_sin demo_lib x) x = Inr y"
    using x0 by (simp add: np_divide_def demo_lib_def t_def)
qed

lemma horner_total:
  assumes "\<forall>c\<in>set cs. \<bar>c\<bar> \<le> 1" and "\<bar>x\<bar> \<le> 1" and "\<bar>y\<bar> \<le> 2 powi int m"
    and "m + length cs < 1024"
  shows "\<exists>r. horner cs x y = Inr r"
  using assms
proof (induction cs arbitrary: y m)
  case Nil
  then show ?case by simp
next
  case (Cons c cs)
  have m: "int m < 1024" using Cons.prems(4) by simp
  have "\<bar>y * x\<bar> \<le> \<bar>y\<bar> * 1" unfolding abs_mult using Cons.prems(2) by (intro mult_left_mono) simp_all
  then have yx: "\<bar>y * x\<bar> \<le> 2 powi int m" using Cons.prems(3) by simp
  have f1: "f64 (y * x) = Inr (round_f64 (y * x))" using yx by (rule f64_small) (use m in simp_all)
  define t where "t = round_f64 (y * x)"
  have tb: "\<bar>t\<bar> \<le> 2 powi int m" unfolding t_def using yx by (intro round_f64_abs_le_pow2) simp_all
  have c1: "\<bar>c\<bar> \<le> 1" using Cons.prems(1) by simp
  have "(1::rat) = 2 powi 0" by simp
  also have "\<dots> \<le> 2 powi int m" by (rule powi2_mono) simp
  finally have one: "(1::rat) \<le> 2 powi int m" .
  have "(2::rat) powi (int m + 1) = 2 * 2 powi int m" by (simp add: power_int_add)
  then have tc: "\<bar>t + c\<bar> \<le> 2 powi (int m + 1)" using tb c1 one by linarith
  have f2: "f64 (t + c) = Inr (round_f64 (t + c))"
    using tc by (rule f64_small) (use Cons.prems(4) in simp_all)
  have "\<bar>round_f64 (t + c)\<bar> \<le> 2 powi (int m + 1)"
    using tc by (intro round_f64_abs_le_pow2) simp_all
  then have yb: "\<bar>round_f64 (t + c)\<bar> \<le> 2 powi int (Suc m)" by (simp add: add.commute)
  have "\<exists>r. horner cs x (round_f64 (t + c)) = Inr r"
    using Cons.prems(1,2,4) by (intro Cons.IH[OF _ _ yb]) simp_all
  then show ?case by (simp add: np_multiply_def np_add_def f1 t_def[symmetric] f2)
qed

lemma term_at_le_1: "\<bar>term_at i\<bar> \<le> 1"
proof -
  have "(1::rat) \<le> of_int (factorial (2 * i + 1))"
    using factorial_pos[of "2 * i + 1"] by (simp only: of_int_1_le_iff)
  then have "\<bar>(- 1) ^ i / (of_int (factorial (2 * i + 1)) :: rat)\<bar> \<le> 2 powi 0"
    by (simp add: abs_divide power_abs)
  then have "\<bar>term_at i\<bar> \<le> 2 powi 0" unfolding term_at_def by (intro round_f64_abs_le_pow2) simp_all
  then show ?thesis by simp
qed

lemma poly1d_coef_props:
  "set (coef (poly1d c)) \<subseteq> insert 0 (set c)" "length (coef (poly1d c)) \<le> max 1 (length c)"
proof -
  have s: "set (dropWhile (\<lambda>a. a = 0) c) \<subseteq> set c" by (auto dest: set_dropWhileD)
  have l: "length (dropWhile (\<lambda>a. a = 0) c) \<le> length c" by (rule length_dropWhile_le)
  show "set (coef (poly1d c)) \<subseteq> insert 0 (set c)" using s by (auto simp: poly1d_def Let_def)
  show "length (coef (poly1d c)) \<le> max 1 (length c)" using l by (auto simp: poly1d_def Let_def)
qed

lemma series_N_coefs:
  assumes "series N = Inr ps" and "s \<in> set ps"
  shows "(\<forall>c\<in>set (coef s). \<bar>c\<bar> \<le> 1) \<and> length (coef s) \<le> 15"
proof -
  have "ps = map (\<lambda>i. poly1d (getslice_down (coef_list N) (2 * i))) [1..<nat N]"
    using assms(1) by (simp add: series_eq)
  then obtain i where s: "s = poly1d (getslice_down (coef_list N) (2 * i))"
    using assms(2) by auto
  define c where "c = getslice_down (coef_list N) (2 * i)"
  have "set c \<subseteq> set (coef_list N)" by (auto simp: c_def getslice_down_def dest: in_set_takeD)
  moreover have "\<bar>v\<bar> \<le> 1" if "v \<in> set (coef_list N)" for v
    using that term_at_le_1 by (auto simp: coef_list_def)
  ultimately have cb: "\<forall>v\<in>set c. \<bar>v\<bar> \<le> 1" by blast
  have "length c \<le> length (coef_list N)" by (simp add: c_def getslice_down_def)
  then have cl: "length c \<le> 15" by (simp add: N_def)
  have "\<forall>v\<in>set (coef s). \<bar>v\<bar> \<le> 1"
    using poly1d_coef_props(1)[of c] cb by (auto simp: s c_def)
  moreover have "length (coef s) \<le> 15"
    using poly1d_coef_props(2)[of c] cl by (simp add: s c_def)
  ultimately show ?thesis by simp
qed

lemma r_series_total:
  assumes "series N = Inr ps" and "\<forall>x\<in>set xs. \<bar>x\<bar> \<le> 1"
  shows "\<exists>rss. r_series ps xs = Inr rss"
  unfolding r_series_def
proof (rule traverse_total)
  fix s assume s: "s \<in> set ps"
  note cs = series_N_coefs[OF assms(1) s]
  show "\<exists>y. polyval s xs = Inr y"
    unfolding polyval_def
  proof (rule traverse_total)
    fix x assume "x \<in> set xs"
    then have x: "\<bar>x\<bar> \<le> 1" using assms(2) by simp
    have y: "\<bar>0 :: rat\<bar> \<le> 2 powi int 0" by simp
    show "\<exists>r. horner (coef s) x 0 = Inr r"
      using cs by (intro horner_total[OF _ x y]) simp_all
  qed
qed

lemma demo_sines:
  "\<bar>np_sin demo_lib 1 - 8415 / 10000\<bar> \<le> 1 / 1000"
  "\<bar>mp_sin demo_lib 3325 1 - 8415 / 10000\<bar> \<le> 1 / 1000"
proof -
  have t: "taylor_sin 1 = 4241 / 5040" by (simp add: taylor_sin_def)
  have b: "of_int 3446 / 4096 \<le> (4241 / 5040 :: rat)" "(4241 / 5040 :: rat) \<le> of_int 3447 / 4096"
      "\<bar>4241 / 5040 :: rat\<bar> \<le> 2"
    by simp_all
  have lo: "(8405 / 10000 :: rat) \<le> of_int 3446 / 4096" by simp
  have hi: "of_int 3447 / 4096 \<le> (8425 / 10000 :: rat)" by simp
  obtain r where r: "f64 (4241 / 5040) = Inr r" "of_int 3446 / 4096 \<le> r" "r \<le> of_int 3447 / 4096"
    using f64_between[OF b] by blast
  have e: "np_sin demo_lib 1 = r" using f64_Inr[OF r(1)] by (simp add: demo_lib_def t)
  have "8405 / 10000 \<le> r" "r \<le> 8425 / 10000"
    using order_trans[OF lo r(2)] order_trans[OF r(3) hi] by blast+
  then show "\<bar>np_sin demo_lib 1 - 8415 / 10000\<bar> \<le> 1 / 1000"
    unfolding e by linarith
  have m: "of_int 3446 / 4096 \<le> round_bits 3325 (4241 / 5040) \<and>
        round_bits 3325 (4241 / 5040) \<le> of_int 3447 / 4096"
    using b by (rule round_bits_between) simp
  have e': "mp_sin demo_lib 3325 1 = round_bits 3325 (4241 / 5040)"
    by (simp add: demo_lib_def t)
  have "8405 / 10000 \<le> round_bits 3325 (4241 / 5040)" "round_bits 3325 (4241 / 5040) \<le> 8425 / 10000"
    using order_trans[OF lo conjunct1[OF m]] order_trans[OF conjunct2[OF m] hi] by blast+
  then show "\<bar>mp_sin demo_lib 3325 1 - 8415 / 10000\<bar> \<le> 1 / 1000"
    unfolding e' by linarith
qed

lemma demo_stages:
  "\<exists>xs ps rf ro rss. x_range demo_lib = Inr xs \<and> series N = Inr ps \<and>
     ref demo_lib (set_dps 1000 ctx0) xs = Inr rf \<and> r_orig demo_lib xs = Inr ro \<and>
     r_series ps xs = Inr rss"
proof -
  obtain xs where xs: "x_range demo_lib = Inr xs" "\<forall>x\<in>set xs. 2 powi (- 34) \<le> x \<and> x \<le> 1"
    using x_range_demo by blast
  obtain ps where ps: "series N = Inr ps" by (simp add: series_eq)
  have pos: "0 < x" if "x \<in> set xs" for x
    using xs(2) that powi2_pos[of "- 34"] by (metis less_le_trans)
  have "\<forall>x\<in>set xs. x \<noteq> 0" using pos by auto
  moreover have "1 \<le> prec (set_dps 1000 ctx0)"
    using dps_to_prec_pos[of 1000] by (simp add: set_dps_def)
  ultimately obtain rf where rf: "ref demo_lib (set_dps 1000 ctx0) xs = Inr rf"
    using ref_total by blast
  obtain ro where ro: "r_orig demo_lib xs = Inr ro" using r_orig_demo[OF xs(2)] by blast
  have "\<forall>x\<in>set xs. \<bar>x\<bar> \<le> 1"
  proof
    fix x assume "x \<in> set xs"
    then have "0 < x" "x \<le> 1" using pos xs(2) by auto
    then show "\<bar>x\<bar> \<le> 1" by linarith
  qed
  then obtain rss where rss: "r_series ps xs = Inr rss" using r_series_total[OF ps] by blast
  show ?thesis using xs(1) ps rf ro rss by blast
qed

section \<open>The claims of the specification\<close>

text \<open>
  Claim C9 is about the doubles that the platform's sine and power routines and mpmath's
  sine return at the fifty grid points. These routines are parameters here, and no theorem
  is stated about their values to the last bit. What the code itself ensures around C9 is
  \<open>report_defined_iff\<close> above.
\<close>

text \<open>
  Claim C1, as amended. In the reporting step the pair (minimum, maximum) of a series
  order is taken over exactly the samples classified "series better", those whose
  direct-formula error is strictly greater than the series error: whenever the report is
  produced, the row of differences \<open>ds\<close> of order \<open>k\<close> exists, it has at least one such
  sample, and the pair is the least and the greatest difference among them.
\<close>

theorem report_over_series_better:
  assumes "report ctx eo es = Inr pairs" and "k < length es"
  shows "\<exists>ds. traverse (\<lambda>(a, b). abs_diff ctx a b) (zip eo (es ! k)) = Inr ds \<and>
           {ds ! j | j. j < length ds \<and> es ! k ! j < eo ! j} \<noteq> {} \<and>
           pairs ! k = (Min {ds ! j | j. j < length ds \<and> es ! k ! j < eo ! j},
                        Max {ds ! j | j. j < length ds \<and> es ! k ! j < eo ! j})"
proof -
  obtain dss where dss: "difference ctx eo es = Inr dss"
    and mm: "min_max_pairs dss (worse eo es) = Inr pairs"
    using assms(1) by (auto simp: report_def split: sum.splits)
  define ds where "ds = dss ! k"
  define w where "w = worse eo es ! k"
  have row: "traverse (\<lambda>(a, b). abs_diff ctx a b) (zip eo (es ! k)) = Inr ds"
    unfolding ds_def by (rule difference_row[OF dss assms(2)])
  have lds: "length ds = min (length eo) (length (es ! k))"
    using traverse_Inr_length[OF row] by simp
  have lw: "length w = min (length eo) (length (es ! k))"
    unfolding w_def by (rule length_worse_row[OF assms(2)])
  have kz: "k < length (zip dss (worse eo es))"
    using assms(2) difference_length[OF dss] by (simp add: worse_def)
  have "(\<lambda>(d, w). min_max d w) (zip dss (worse eo es) ! k) = Inr (pairs ! k)"
    using traverse_Inr_nth[OF mm[unfolded min_max_pairs_def] kz] .
  then have "min_max ds w = Inr (pairs ! k)" using kz by (simp add: ds_def w_def)
  then have sel: "select ds w \<noteq> []"
    and pk: "pairs ! k = (Min (set (select ds w)), Max (set (select ds w)))"
    by (simp_all add: min_max_Inr)
  let ?S = "{ds ! j | j. j < length ds \<and> es ! k ! j < eo ! j}"
  have wj: "w ! j \<longleftrightarrow> es ! k ! j < eo ! j" if "j < length ds" for j
    unfolding w_def using that lds by (intro worse_nth[OF assms(2)]) simp_all
  have "set (select ds w) = {ds ! j | j. j < length ds \<and> j < length w \<and> w ! j}"
    by (rule set_select)
  also have "\<dots> = ?S"
  proof (rule Collect_cong)
    fix v
    show "(\<exists>j. v = ds ! j \<and> j < length ds \<and> j < length w \<and> w ! j)
        = (\<exists>j. v = ds ! j \<and> j < length ds \<and> es ! k ! j < eo ! j)"
      using wj lds lw by auto
  qed
  finally have seteq: "set (select ds w) = ?S" .
  have ne: "?S \<noteq> {}" using sel unfolding seteq[symmetric] by simp
  have pk': "pairs ! k = (Min ?S, Max ?S)" using pk unfolding seteq .
  from row ne pk' show ?thesis by (intro exI[of _ ds] conjI)
qed

theorem report_over_series_better_witness:
  "report \<lparr>prec = 3325\<rparr> [1, 4] [[2, 2]] = Inr [(2, 2)] \<and> (0::nat) < length [[2, 2 :: rat]] \<and>
   (\<exists>ds. traverse (\<lambda>(a, b). abs_diff \<lparr>prec = 3325\<rparr> a b) (zip [1, 4] ([[2, 2]] ! 0)) = Inr ds \<and>
           {ds ! j | j. j < length ds \<and> [[2, 2]] ! 0 ! j < [1, 4 :: rat] ! j} \<noteq> {} \<and>
           [(2, 2)] ! 0 = (Min {ds ! j | j. j < length ds \<and> [[2, 2]] ! 0 ! j < [1, 4 :: rat] ! j},
                          Max {ds ! j | j. j < length ds \<and> [[2, 2]] ! 0 ! j < [1, 4 :: rat] ! j}))"
proof -
  have k: "(0::nat) < length [[2, 2 :: rat]]" by simp
  show ?thesis
    using report_example k report_over_series_better[OF report_example k] by (intro conjI)
qed

text \<open>
  Claim C1 as stated, with the pair taken over the samples classified "direct better",
  fails. With direct errors \<open>[1, 4]\<close> and series errors \<open>[2, 2]\<close> for one order, the first
  sample is "direct better" with difference 1 and the second is "series better" with
  difference 2: the notebook reports \<open>(2, 2)\<close>, while the aggregate over the "direct
  better" mask would be \<open>(1, 1)\<close>.
\<close>

theorem report_mask_counterexample:
  "report \<lparr>prec = 3325\<rparr> [1, 4] [[2, 2]] = Inr [(2, 2)] \<and>
   difference \<lparr>prec = 3325\<rparr> [1, 4] [[2, 2]] = Inr [[1, 2]] \<and>
   better [1, 4] [[2, 2]] = [[True, False]] \<and>
   min_max_pairs [[1, 2]] (better [1, 4] [[2, 2]]) = Inr [(1, 1)]"
  by (simp add: report_example difference_example better_def min_max_pairs_def min_max_def
      select_def np_min_def np_max_def)

text \<open>
  Claim C2, as amended. With the sample range \<open>[10^-10, 10^0]\<close>, 50 log-spaced points and
  maximum order \<open>N = 8\<close>, the error differences of the samples classified "direct better"
  are not bounded by \<open>2^-53 = 1.1102230246251565e-16\<close>. For every library with \<open>10^0 = 1\<close>
  whose double sine and 1000-digit sine at 1 are within \<open>10^-3\<close> of \<open>0.8415\<close>, the last
  sample is 1, the series of order 1 is classified "direct better" there, and the error
  difference at that sample is at least \<open>4 * 10^-3\<close>, above \<open>2^-53\<close>; it is the entry of
  order 1 and sample 49 of the difference array. (The bound printed by the notebook is the
  maximum over the "series better" samples, see C1.)
\<close>

theorem direct_better_gap:
  assumes "x_range L = Inr xs" and "series N = Inr ps"
    and "ref L (set_dps 1000 ctx0) xs = Inr rf" and "r_orig L xs = Inr ro"
    and "r_series ps xs = Inr rss"
    and "np_power L 10 0 = Inr 1"
    and "\<bar>np_sin L 1 - 8415 / 10000\<bar> \<le> 1 / 1000"
    and "\<bar>mp_sin L 3325 1 - 8415 / 10000\<bar> \<le> 1 / 1000"
  defines "ctx \<equiv> set_dps 1000 ctx0"
  defines "eo \<equiv> err_orig ctx ro rf"
  defines "es \<equiv> err_series ctx rss rf"
  shows "xs ! 49 = 1 \<and> better eo es ! 0 ! 49 \<and>
         (\<exists>d. abs_diff ctx (eo ! 49) (es ! 0 ! 49) = Inr d \<and> 4 / 1000 \<le> d \<and> 1 / 2 ^ 53 < d \<and>
              (\<forall>dss. difference ctx eo es = Inr dss \<longrightarrow> dss ! 0 ! 49 = d))"
proof -
  from order1_last_sample[OF assms(1-8)] obtain d where
    a: "xs ! 49 = 1" "better eo es ! 0 ! 49" and
    d: "abs_diff ctx (eo ! 49) (es ! 0 ! 49) = Inr d" "19 / 4096 \<le> d"
       "\<forall>dss. difference ctx eo es = Inr dss \<longrightarrow> dss ! 0 ! 49 = d"
    unfolding ctx_def eo_def es_def by blast
  have "(4 / 1000 :: rat) \<le> 19 / 4096" by simp
  then have d1: "4 / 1000 \<le> d" using d(2) by linarith
  have "(1 / 2 ^ 53 :: rat) < 4 / 1000" by simp
  then have d2: "1 / 2 ^ 53 < d" using d1 by linarith
  show ?thesis using a d(1) d1 d2 d(3) by blast
qed

theorem direct_better_gap_witness:
  "\<exists>xs ps rf ro rss.
     x_range demo_lib = Inr xs \<and> series N = Inr ps \<and>
     ref demo_lib (set_dps 1000 \<lparr>prec = 53\<rparr>) xs = Inr rf \<and> r_orig demo_lib xs = Inr ro \<and>
     r_series ps xs = Inr rss \<and> np_power demo_lib 10 0 = Inr 1 \<and>
     \<bar>np_sin demo_lib 1 - 8415 / 10000\<bar> \<le> 1 / 1000 \<and>
     \<bar>mp_sin demo_lib 3325 1 - 8415 / 10000\<bar> \<le> 1 / 1000 \<and>
     xs ! 49 = 1 \<and>
     better (err_orig (set_dps 1000 \<lparr>prec = 53\<rparr>) ro rf)
            (err_series (set_dps 1000 \<lparr>prec = 53\<rparr>) rss rf) ! 0 ! 49 \<and>
     (\<exists>d. abs_diff (set_dps 1000 \<lparr>prec = 53\<rparr>)
             (err_orig (set_dps 1000 \<lparr>prec = 53\<rparr>) ro rf ! 49)
             (err_series (set_dps 1000 \<lparr>prec = 53\<rparr>) rss rf ! 0 ! 49) = Inr d \<and>
           4 / 1000 \<le> d \<and> 1 / 2 ^ 53 < d)"
proof -
  obtain xs ps rf ro rss where st: "x_range demo_lib = Inr xs" "series N = Inr ps"
      "ref demo_lib (set_dps 1000 \<lparr>prec = 53\<rparr>) xs = Inr rf" "r_orig demo_lib xs = Inr ro"
      "r_series ps xs = Inr rss"
    using demo_stages[of "\<lparr>prec = 53\<rparr>"] by blast
  note g = direct_better_gap[OF st demo_power_0 demo_sines]
  show ?thesis using st demo_power_0 demo_sines g by blast
qed

text \<open>
  Claim C2 as written fails: in the run with the stand-in library every stage succeeds,
  the series of order 1 is classified "direct better" at sample 49, and the error
  difference there exceeds \<open>2^-53\<close>.
\<close>

theorem direct_better_counterexample:
  "\<exists>xs ps rf ro rss d.
     x_range demo_lib = Inr xs \<and> series N = Inr ps \<and>
     ref demo_lib (set_dps 1000 \<lparr>prec = 53\<rparr>) xs = Inr rf \<and> r_orig demo_lib xs = Inr ro \<and>
     r_series ps xs = Inr rss \<and>
     better (err_orig (set_dps 1000 \<lparr>prec = 53\<rparr>) ro rf)
            (err_series (set_dps 1000 \<lparr>prec = 53\<rparr>) rss rf) ! 0 ! 49 \<and>
     abs_diff (set_dps 1000 \<lparr>prec = 53\<rparr>)
             (err_orig (set_dps 1000 \<lparr>prec = 53\<rparr>) ro rf ! 49)
             (err_series (set_dps 1000 \<lparr>prec = 53\<rparr>) rss rf ! 0 ! 49) = Inr d \<and>
     \<not> d \<le> 1 / 2 ^ 53"
proof -
  obtain xs ps rf ro rss where st: "x_range demo_lib = Inr xs" "series N = Inr ps"
      "ref demo_lib (set_dps 1000 \<lparr>prec = 53\<rparr>) xs = Inr rf" "r_orig demo_lib xs = Inr ro"
      "r_series ps xs = Inr rss"
    using demo_stages[of "\<lparr>prec = 53\<rparr>"] by blast
  from order1_last_sample[OF st demo_power_0 demo_sines] obtain d where
    b: "better (err_orig (set_dps 1000 \<lparr>prec = 53\<rparr>) ro rf)
            (err_series (set_dps 1000 \<lparr>prec = 53\<rparr>) rss rf) ! 0 ! 49" and
    d: "abs_diff (set_dps 1000 \<lparr>prec = 53\<rparr>)
             (err_orig (set_dps 1000 \<lparr>prec = 53\<rparr>) ro rf ! 49)
             (err_series (set_dps 1000 \<lparr>prec = 53\<rparr>) rss rf ! 0 ! 49) = Inr d"
       "19 / 4096 \<le> d"
    by blast
  have "(1 / 2 ^ 53 :: rat) < 19 / 4096" by simp
  then have "\<not> d \<le> 1 / 2 ^ 53" using d(2) by linarith
  then show ?thesis using st b d(1) by blast
qed

text \<open>
  Claim C3, as amended. With \<open>N = 8\<close> the builder produces one polynomial per order from
  1 to \<open>N - 1\<close>: seven polynomials of degrees 2, 4, ..., 14, so the smallest order with a
  polynomial is 1 (degree 2).
\<close>

theorem series_orders:
  "map_sum id (map degree) (series N) = Inr (map (\<lambda>k. 2 * k) [1..<nat N])"
proof -
  have "map (\<lambda>k. 2 * k) [1..<nat N] = [2, 4, 6, 8, 10, 12, 14 :: nat]"
    by (simp add: N_def upt_rec)
  then show ?thesis using series_N_degrees by simp
qed

text \<open>
  Claim C3 as stated, one polynomial per order from 2 to \<open>N - 1\<close>, fails: the degrees are
  not 4, 6, ..., 14.
\<close>

theorem series_orders_counterexample:
  "map_sum id (map degree) (series N) \<noteq> Inr (map (\<lambda>k. 2 * k) [2..<nat N])"
proof -
  have "map (\<lambda>k. 2 * k) [2..<nat N] = [4, 6, 8, 10, 12, 14 :: nat]"
    by (simp add: N_def upt_rec)
  then show ?thesis using series_N_degrees by simp
qed

text \<open>
  Claim C4, as amended. The row of markers of the series of order \<open>k\<close> is placed at the
  number of coefficients of its polynomial, \<^verbatim>\<open>len(s.coef)\<close>, which is \<open>2 * k + 1\<close>: one more
  than the degree. This holds for every order the builder produces, for any sample set
  and any masks.
\<close>

theorem plot_row_height:
  assumes "series N = Inr ps" and "k \<in> {1..<nat N}"
    and "rows = plot_rows xs (y_data ps xs) bs ss ws" and "k - 1 < length rows"
  shows "y_data ps xs ! (k - 1) = replicate (length xs) (2 * k + 1) \<and>
         (\<forall>(x, y) \<in> set (green (rows ! (k - 1))) \<union> set (blue (rows ! (k - 1)))
                      \<union> set (red (rows ! (k - 1))). y = 2 * k + 1)"
proof -
  have k: "1 \<le> k" "int k < N" "2 * k + 1 \<le> 170" using assms(2) by (auto simp: N_def)
  have lp: "length ps = 7" using series_length[OF assms(1)] by (simp add: N_def)
  have k7: "k - 1 < length ps" using k lp by (simp add: N_def)
  define y where "y = y_data ps xs ! (k - 1)"
  have y: "y = replicate (length xs) (2 * k + 1)"
    using k7 series_full_length[OF assms(1) k] by (simp add: y_def y_data_def)
  define z where "z = zip (y_data ps xs) (zip bs (zip ss ws))"
  have kz: "k - 1 < length z" using assms(3,4) by (simp add: plot_rows_def z_def)
  have "fst (z ! (k - 1)) = y" using kz by (simp add: z_def y_def)
  then obtain b s w where zk: "z ! (k - 1) = (y, b, s, w)" by (metis prod.collapse)
  have row: "rows ! (k - 1) = \<lparr>green = scatter xs y b, blue = scatter xs y s, red = scatter xs y w\<rparr>"
    using kz zk unfolding assms(3) plot_rows_def z_def[symmetric] by simp
  have "v = 2 * k + 1" if "v \<in> set y" for v using that by (auto simp: y)
  then have all: "\<forall>(x, v) \<in> set (scatter xs y b) \<union> set (scatter xs y s) \<union> set (scatter xs y w).
      v = 2 * k + 1"
    by (auto dest: scatter_snd)
  show ?thesis unfolding row using y[unfolded y_def] all by simp
qed

theorem plot_row_height_witness:
  "\<exists>ps. series N = Inr ps \<and> (1::nat) \<in> {1..<nat N} \<and>
     green (plot_rows [1 / 2, 1] (y_data ps [1 / 2, 1]) [[True, False]] [[False, False]]
              [[False, True]] ! 0) = [(1 / 2, 3)] \<and>
     blue (plot_rows [1 / 2, 1] (y_data ps [1 / 2, 1]) [[True, False]] [[False, False]]
              [[False, True]] ! 0) = [] \<and>
     red (plot_rows [1 / 2, 1] (y_data ps [1 / 2, 1]) [[True, False]] [[False, False]]
              [[False, True]] ! 0) = [(1, 3)]"
proof -
  obtain ps where ps: "series N = Inr ps" by (simp add: series_eq)
  have k: "(1::nat) \<in> {1..<nat N}" by (simp add: N_def)
  have lp: "length ps = 7" using series_length[OF ps] by (simp add: N_def)
  define rows where "rows = plot_rows [1 / 2, 1] (y_data ps [1 / 2, 1]) [[True, False]]
      [[False, False]] [[False, True]]"
  have lr: "1 - 1 < length rows" using lp by (simp add: rows_def plot_rows_def y_data_def)
  have y: "y_data ps [1 / 2, 1] ! (1 - 1) = replicate (length [1 / 2, 1 :: rat]) (2 * 1 + 1)"
    using plot_row_height[OF ps k rows_def lr] by (rule conjunct1)
  then have y0: "y_data ps [1 / 2, 1] ! 0 = [3, 3]" by (simp add: numeral_2_eq_2)
  have "0 < length (y_data ps [1 / 2, 1])" using lp by (simp add: y_data_def)
  then have "rows ! 0 = \<lparr>green = scatter [1 / 2, 1] [3, 3] [True, False],
      blue = scatter [1 / 2, 1] [3, 3] [False, False],
      red = scatter [1 / 2, 1] [3, 3] [False, True]\<rparr>"
    by (simp add: rows_def plot_rows_def y0)
  then have "green (rows ! 0) = [(1 / 2, 3)]" "blue (rows ! 0) = []" "red (rows ! 0) = [(1, 3)]"
    by (simp_all add: scatter_def select_def)
  then show ?thesis using ps k unfolding rows_def by blast
qed

text \<open>
  Claim C4 as stated, a vertical coordinate equal to the degree \<open>2 * order\<close>, fails: for a
  single sample the rows are at 3, 5, ..., 15 while the degrees are 2, 4, ..., 14.
\<close>

theorem plot_row_height_counterexample:
  "map_sum id (\<lambda>ps. y_data ps [1]) (series N) = Inr [[3], [5], [7], [9], [11], [13], [15]] \<and>
   map_sum id (map degree) (series N) = Inr [2, 4, 6, 8, 10, 12, 14]"
proof -
  obtain ps where ps: "series N = Inr ps" by (simp add: series_eq)
  have "map (\<lambda>s. length (coef s)) ps = [3, 5, 7, 9, 11, 13, 15]"
    using series_N_coef_lengths by (simp add: ps)
  then have "map (\<lambda>n. [n]) (map (\<lambda>s. length (coef s)) ps) = map (\<lambda>n. [n]) [3, 5, 7, 9, 11, 13, 15]"
    by (rule arg_cong)
  then have "y_data ps [1] = [[3], [5], [7], [9], [11], [13], [15]]"
    by (simp add: y_data_def comp_def)
  then show ?thesis using series_N_degrees by (simp add: ps)
qed

text \<open>
  Claim C5. For every order bound \<open>n \<ge> 2\<close> the builder returns, without failing, exactly
  \<open>n - 1\<close> polynomials, one for each order \<open>k\<close> from 1 to \<open>n - 1\<close>. The polynomial of order
  \<open>k\<close> has no coefficient for a power above \<open>2 * k\<close>, its coefficients are those of the full
  list \<open>sc\<close>, and they are listed from the highest power down to the constant. Its degree
  is \<open>2 * k\<close> as long as \<open>(2k+1)!\<close> is within the range of normal doubles; beyond, the
  leading coefficient underflows and numpy drops it.
\<close>

theorem series_builder_polynomials:
  assumes "2 \<le> n"
  shows "\<exists>sc ps. series_coef n = Inr sc \<and> series n = Inr ps \<and> length ps = nat (n - 1) \<and>
     (\<forall>k\<in>{1..<nat n}.
        length (coef (ps ! (k - 1))) \<le> 2 * k + 1 \<and>
        (\<forall>i<length (coef (ps ! (k - 1))).
           coef (ps ! (k - 1)) ! i = sc ! (length (coef (ps ! (k - 1))) - 1 - i)) \<and>
        (\<forall>j. coef_at (ps ! (k - 1)) j = (if j \<le> 2 * k then sc ! j else 0)) \<and>
        (2 * k + 1 \<le> 170 \<longrightarrow> degree (ps ! (k - 1)) = 2 * k))"
proof -
  obtain ps where ps: "series n = Inr ps" by (simp add: series_eq)
  have len: "length ps = nat (n - 1)" using series_length[OF ps] assms by simp
  have row: "length (coef (ps ! (k - 1))) \<le> 2 * k + 1 \<and>
        (\<forall>i<length (coef (ps ! (k - 1))).
           coef (ps ! (k - 1)) ! i = coef_list n ! (length (coef (ps ! (k - 1))) - 1 - i)) \<and>
        (\<forall>j. coef_at (ps ! (k - 1)) j = (if j \<le> 2 * k then coef_list n ! j else 0)) \<and>
        (2 * k + 1 \<le> 170 \<longrightarrow> degree (ps ! (k - 1)) = 2 * k)"
    if "k \<in> {1..<nat n}" for k
  proof -
    have k: "1 \<le> k" "int k < n" using that by auto
    have e: "ps ! (k - 1) = poly1d (trunc n k)" by (rule series_poly[OF ps k])
    have full: "degree (ps ! (k - 1)) = 2 * k" if "2 * k + 1 \<le> 170"
      using series_full_length[OF ps k that] by (simp add: degree_def)
    have "length (coef (ps ! (k - 1))) \<le> 2 * k + 1 \<and>
        (\<forall>i<length (coef (ps ! (k - 1))).
           coef (ps ! (k - 1)) ! i = coef_list n ! (length (coef (ps ! (k - 1))) - 1 - i)) \<and>
        (\<forall>j. coef_at (ps ! (k - 1)) j = (if j \<le> 2 * k then coef_list n ! j else 0))"
      unfolding e
      using poly_trunc(2)[OF k] poly_trunc(3)[OF k] poly_trunc(4)[OF k] poly_trunc(5)[OF k]
      by (auto simp: not_le)
    then show ?thesis using full by blast
  qed
  show ?thesis using series_coef_eq[of n] ps len row by blast
qed

theorem series_builder_polynomials_witness:
  "(2::int) \<le> 2 \<and>
   (\<exists>sc ps. series_coef 2 = Inr sc \<and> series 2 = Inr ps \<and> length ps = 1 \<and>
      length (coef (ps ! 0)) \<le> 3 \<and> coef_at (ps ! 0) 0 = sc ! 0 \<and> coef_at (ps ! 0) 3 = 0 \<and>
      degree (ps ! 0) = 2)"
proof -
  have h: "(2::int) \<le> 2" by simp
  from series_builder_polynomials[OF h] obtain sc ps where
    a: "series_coef 2 = Inr sc" "series 2 = Inr ps" "length ps = nat (2 - 1)" and
    b: "\<forall>k\<in>{1..<nat 2}.
        length (coef (ps ! (k - 1))) \<le> 2 * k + 1 \<and>
        (\<forall>i<length (coef (ps ! (k - 1))).
           coef (ps ! (k - 1)) ! i = sc ! (length (coef (ps ! (k - 1))) - 1 - i)) \<and>
        (\<forall>j. coef_at (ps ! (k - 1)) j = (if j \<le> 2 * k then sc ! j else 0)) \<and>
        (2 * k + 1 \<le> 170 \<longrightarrow> degree (ps ! (k - 1)) = 2 * k)"
    by blast
  have "(1::nat) \<in> {1..<nat 2}" by simp
  from b[rule_format, OF this] have
    "length (coef (ps ! 0)) \<le> 3" "\<forall>j. coef_at (ps ! 0) j = (if j \<le> 2 then sc ! j else 0)"
    "degree (ps ! 0) = 2"
    by simp_all
  then have "length (coef (ps ! 0)) \<le> 3" "coef_at (ps ! 0) 0 = sc ! 0" "coef_at (ps ! 0) 3 = 0"
    "degree (ps ! 0) = 2"
    by simp_all
  then show ?thesis using a by simp
qed

text \<open>
  Claim C6. In every polynomial of the builder the coefficient of each odd power is zero,
  and the coefficient of the power \<open>2 * i\<close>, for \<open>i\<close> up to the order, is \<open>(-1)^i / (2i+1)!\<close>
  up to a relative error of \<open>2^-53\<close>, half a unit in the last place of a double. The bound
  is stated for the terms whose magnitude is a normal double, \<open>2 * i + 1 \<le> 170\<close>, which
  covers every term of the notebook (\<open>N = 8\<close>, at most \<open>15!\<close>).
\<close>

theorem series_coefficient_values:
  assumes "series n = Inr ps" and "k \<in> {1..<nat n}"
  shows "(\<forall>j. odd j \<longrightarrow> coef_at (ps ! (k - 1)) j = 0) \<and>
         (\<forall>i\<le>k. 2 * i + 1 \<le> 170 \<longrightarrow>
            \<bar>coef_at (ps ! (k - 1)) (2 * i) - (- 1) ^ i / fact (2 * i + 1)\<bar>
              \<le> 2 powi (- 53) / fact (2 * i + 1))"
proof -
  have k: "1 \<le> k" "int k < n" using assms(2) by auto
  have e: "ps ! (k - 1) = poly1d (trunc n k)" by (rule series_poly[OF assms(1) k])
  have odd0: "coef_at (ps ! (k - 1)) j = 0" if "odd j" for j
  proof (cases "j \<le> 2 * k")
    case True
    then have "j < nat (2 * n - 1)" using k by auto
    then have "coef_list n ! j = 0" using that by (simp add: coef_list_nth)
    then show ?thesis unfolding e using poly_trunc(4)[OF k True] by simp
  next
    case False
    then show ?thesis unfolding e using poly_trunc(5)[OF k, of j] by simp
  qed
  have ev: "\<bar>coef_at (ps ! (k - 1)) (2 * i) - (- 1) ^ i / fact (2 * i + 1)\<bar>
              \<le> 2 powi (- 53) / fact (2 * i + 1)"
    if "i \<le> k" and "2 * i + 1 \<le> 170" for i
  proof -
    have "2 * i < nat (2 * n - 1)" using k that(1) by auto
    then have "coef_list n ! (2 * i) = term_at i" by (simp add: coef_list_nth)
    moreover have "coef_at (ps ! (k - 1)) (2 * i) = coef_list n ! (2 * i)"
      unfolding e using that(1) by (intro poly_trunc(4)[OF k]) simp
    ultimately have "coef_at (ps ! (k - 1)) (2 * i) = term_at i" by simp
    then show ?thesis
      using term_at_accurate(1)[OF fact_le_pow2_1022[OF that(2)]] by simp
  qed
  show ?thesis using odd0 ev by blast
qed

theorem series_coefficient_values_witness:
  "\<exists>ps. series N = Inr ps \<and> (7::nat) \<in> {1..<nat N} \<and> coef_at (ps ! 6) 13 = 0 \<and>
     \<bar>coef_at (ps ! 6) 14 - (- 1) ^ 7 / fact 15\<bar> \<le> 2 powi (- 53) / fact 15"
proof -
  obtain ps where ps: "series N = Inr ps" by (simp add: series_eq)
  have k: "(7::nat) \<in> {1..<nat N}" by (simp add: N_def)
  from series_coefficient_values[OF ps k] have
    a: "\<forall>j. odd j \<longrightarrow> coef_at (ps ! (7 - 1)) j = 0" and
    b: "\<forall>i\<le>7. 2 * i + 1 \<le> 170 \<longrightarrow>
            \<bar>coef_at (ps ! (7 - 1)) (2 * i) - (- 1) ^ i / fact (2 * i + 1)\<bar>
              \<le> 2 powi (- 53) / fact (2 * i + 1)"
    by blast+
  have "coef_at (ps ! 6) 13 = 0" using a[rule_format, of 13] by simp
  moreover have "\<bar>coef_at (ps ! 6) 14 - (- 1) ^ 7 / fact 15\<bar> \<le> 2 powi (- 53) / fact 15"
    using b[rule_format, of 7] by (simp del: fact_numeral power_int_numeral power_numeral)
  ultimately show ?thesis using ps k by blast
qed

text \<open>
  Claim C7. For every series order \<open>k\<close> and sample \<open>j\<close> the classification is "equal"
  exactly when the two errors are the same number, "direct better" exactly when the
  direct-formula error is strictly less, "series better" exactly when it is strictly
  greater, and exactly one of the three holds. Errors are finite \<^verbatim>\<open>mpf\<close> numbers, which are
  normalised: two of them are the same bit for bit exactly when they are the same number.
\<close>

theorem classification_trichotomy:
  assumes "k < length es" and "j < length eo" and "j < length (es ! k)"
  shows "(similar eo es ! k ! j \<longleftrightarrow> eo ! j = es ! k ! j) \<and>
         (better eo es ! k ! j \<longleftrightarrow> eo ! j < es ! k ! j) \<and>
         (worse eo es ! k ! j \<longleftrightarrow> es ! k ! j < eo ! j) \<and>
         (similar eo es ! k ! j \<and> \<not> better eo es ! k ! j \<and> \<not> worse eo es ! k ! j \<or>
          better eo es ! k ! j \<and> \<not> similar eo es ! k ! j \<and> \<not> worse eo es ! k ! j \<or>
          worse eo es ! k ! j \<and> \<not> similar eo es ! k ! j \<and> \<not> better eo es ! k ! j)"
  unfolding similar_nth[OF assms] better_nth[OF assms] worse_nth[OF assms] by auto

theorem classification_trichotomy_witness:
  "similar [1, 4, 3] [[2, 2, 3]] ! 0 ! 2 \<and> \<not> better [1, 4, 3] [[2, 2, 3]] ! 0 ! 2 \<and>
   \<not> worse [1, 4, 3] [[2, 2, 3]] ! 0 ! 2 \<and>
   better [1, 4, 3] [[2, 2, 3]] ! 0 ! 0 \<and> worse [1, 4, 3] [[2, 2, 3]] ! 0 ! 1"
proof -
  have a: "(0::nat) < length [[2, 2, 3 :: rat]]" by simp
  have j2: "(2::nat) < length [1, 4, 3 :: rat]" "(2::nat) < length ([[2, 2, 3 :: rat]] ! 0)" by simp_all
  have j0: "(0::nat) < length [1, 4, 3 :: rat]" "(0::nat) < length ([[2, 2, 3 :: rat]] ! 0)" by simp_all
  have j1: "(1::nat) < length [1, 4, 3 :: rat]" "(1::nat) < length ([[2, 2, 3 :: rat]] ! 0)" by simp_all
  show ?thesis
    using classification_trichotomy[OF a j2] classification_trichotomy[OF a j0]
      classification_trichotomy[OF a j1]
    by simp
qed

text \<open>
  Claim C8. Every point of the sample set is strictly positive, so neither the reference
  evaluator (which would raise ZeroDivisionError) nor the direct formula divides by zero.
  The exponents of the grid are computed to lie in \<open>[-10, 0]\<close>; the library's power function
  is assumed to return there a finite double within a relative error below 1 of \<open>10^y\<close>.
\<close>

theorem samples_positive:
  assumes "\<forall>y. - 10 \<le> y \<and> y \<le> 0 \<longrightarrow>
             (\<exists>p. np_power L 10 y = Inr p \<and>
                  \<bar>real_of_rat p - 10 powr real_of_rat y\<bar> < 10 powr real_of_rat y)"
  shows "\<exists>xs. x_range L = Inr xs \<and> length xs = 50 \<and> (\<forall>x\<in>set xs. 0 < x) \<and>
           (\<exists>rf. ref L (set_dps 1000 ctx0) xs = Inr rf) \<and>
           r_orig L xs \<noteq> Inl FloatDivideByZero"
proof -
  obtain ys where ys: "linspace (- 10) 0 50 = Inr ys" "length ys = 50"
      "\<forall>y\<in>set ys. - 10 \<le> y \<and> y \<le> 0"
    using linspace_samples by blast
  have "\<exists>xs. traverse (np_power L 10) ys = Inr xs \<and> length xs = length ys \<and>
      (\<forall>x\<in>set xs. 0 < x)"
  proof (rule traverse_ex[where f = "np_power L 10" and P = "\<lambda>p. 0 < p"])
    fix y assume "y \<in> set ys"
    then have "- 10 \<le> y \<and> y \<le> 0" using ys(3) by simp
    then have "\<exists>p. np_power L 10 y = Inr p \<and>
        \<bar>real_of_rat p - 10 powr real_of_rat y\<bar> < 10 powr real_of_rat y"
      using assms by simp
    then obtain p where p: "np_power L 10 y = Inr p"
        "\<bar>real_of_rat p - 10 powr real_of_rat y\<bar> < 10 powr real_of_rat y"
      by (elim exE conjE)
    from p(2) have "0 < real_of_rat p" by linarith
    then have "0 < p" by (simp only: zero_less_of_rat_iff)
    then show "\<exists>p. np_power L 10 y = Inr p \<and> 0 < p" using p(1) by simp
  qed
  then obtain xs where xs: "traverse (np_power L 10) ys = Inr xs" "length xs = length ys"
      "\<forall>x\<in>set xs. 0 < x"
    by blast
  have xr: "x_range L = Inr xs" by (simp add: x_range_def logspace_def ys(1) xs(1))
  define ctx where "ctx = set_dps 1000 ctx0"
  have pr: "1 \<le> prec ctx" using dps_to_prec_pos[of 1000] by (simp add: ctx_def set_dps_def)
  have "\<exists>rf. ref L ctx xs = Inr rf"
    unfolding ref_def
  proof (rule traverse_total)
    fix z assume "z \<in> set xs"
    then have "z \<noteq> 0" using xs(3) by auto
    then have "mpf ctx z \<noteq> 0" unfolding mpf_def using pr by (rule round_bits_ne0)
    then show "\<exists>r. (let x = mpf ctx z in mp_div ctx (mp_sin L (prec ctx) x) x) = Inr r"
      by (simp add: mp_div_def Let_def)
  qed
  then have rf: "\<exists>rf. ref L (set_dps 1000 ctx0) xs = Inr rf" by (simp only: ctx_def)
  have ro: "r_orig L xs \<noteq> Inl FloatDivideByZero"
  proof
    assume "r_orig L xs = Inl FloatDivideByZero"
    then obtain x where x: "x \<in> set xs" "np_divide (np_sin L x) x = Inl FloatDivideByZero"
      unfolding r_orig_def by (blast dest: traverse_Inl)
    have "x \<noteq> 0" using xs(3) x(1) by auto
    then show False using x(2) f64_not_div0 by (simp add: np_divide_def)
  qed
  have len: "length xs = 50" using xs(2) ys(2) by simp
  have "x_range L = Inr xs \<and> length xs = 50 \<and> (\<forall>x\<in>set xs. 0 < x) \<and>
           (\<exists>rf. ref L (set_dps 1000 ctx0) xs = Inr rf) \<and>
           r_orig L xs \<noteq> Inl FloatDivideByZero"
    using xr len xs(3) rf ro by (intro conjI)
  then show ?thesis by (rule exI)
qed

theorem samples_positive_witness:
  "\<exists>xs. x_range \<lparr>np_power = \<lambda>b y. Inr (b powi \<lfloor>y\<rfloor>), np_sin = \<lambda>x. x, mp_sin = \<lambda>p x. x\<rparr> = Inr xs \<and>
     length xs = 50 \<and> (\<forall>x\<in>set xs. 0 < x) \<and>
     (\<exists>rf. ref \<lparr>np_power = \<lambda>b y. Inr (b powi \<lfloor>y\<rfloor>), np_sin = \<lambda>x. x, mp_sin = \<lambda>p x. x\<rparr>
            (set_dps 1000 \<lparr>prec = 53\<rparr>) xs = Inr rf) \<and>
     r_orig \<lparr>np_power = \<lambda>b y. Inr (b powi \<lfloor>y\<rfloor>), np_sin = \<lambda>x. x, mp_sin = \<lambda>p x. x\<rparr> xs
       \<noteq> Inl FloatDivideByZero"
proof (rule samples_positive)
  show "\<forall>y. - 10 \<le> y \<and> y \<le> 0 \<longrightarrow>
      (\<exists>p. np_power \<lparr>np_power = \<lambda>b y. Inr (b powi \<lfloor>y\<rfloor>), np_sin = \<lambda>x. x, mp_sin = \<lambda>p x. x\<rparr> 10 y
              = Inr p \<and>
           \<bar>real_of_rat p - 10 powr real_of_rat y\<bar> < 10 powr real_of_rat y)"
    using floor_power_close by simp
qed

text \<open>
  Claim C10. A run of the notebook does not depend on the state it starts from: the only
  state it reads, the working precision of mpmath, is set by the run before it is used.
  Running it again, from whatever state an earlier run has left, gives the same
  classification masks, the same pairs and the same plot, or the same failure.
\<close>

theorem run_deterministic: "run L ctx = run L ctx'"
  unfolding run_def set_dps_eq by (rule refl)

end
